theory Spec2Isabelle
  imports Main
begin

section \<open>Base36 reference implementation for 128-bit data\<close>

text \<open>
  The repository holds two revisions of the reference code: the file
  \<^verbatim>\<open>base36_128.c\<close>, whose \<^verbatim>\<open>convert_base\<close> is the naive loop and whose
  \<^verbatim>\<open>encode\<close> writes uppercase letters, and a later revision of the same file, whose
  \<^verbatim>\<open>convert_base\<close> holds the naive loop under \<^verbatim>\<open>#ifdef USE_NAIVE_CODE\<close> and an
  optimized loop otherwise, and whose \<^verbatim>\<open>encode\<close> writes lowercase letters.
  \<^verbatim>\<open>decode\<close> is the same in both.

  Conventions of the embedding:
  \<^item> a \<^verbatim>\<open>uint8_t\<close> array is a \<open>nat list\<close>; a store into it is written \<open>mod 256\<close>;
  \<^item> \<^verbatim>\<open>in_len\<close> is the length of the list \<open>inp\<close>; \<^verbatim>\<open>out_len\<close> is a \<open>nat\<close>, and since
    \<^verbatim>\<open>convert_base\<close> first zeroes \<^verbatim>\<open>out[0..out_len)\<close>, the function takes \<open>out_len\<close>
    and returns the final content of \<^verbatim>\<open>out\<close> with the return code;
  \<^item> the accumulator \<^verbatim>\<open>carry\<close> of the naive loop is a \<^verbatim>\<open>uint_fast16_t\<close>, of at least
    16 bits: the model wraps it at \<open>2 ^ 16\<close>, the narrowest width C allows; the
    accumulator of the optimized loop is a \<^verbatim>\<open>uint64_t\<close> and wraps at \<open>2 ^ 64\<close>;
  \<^item> return codes are the C integers \<open>0\<close> (success) and \<open>-1\<close> (failure);
  \<^item> a loop that need not terminate on every argument returns an \<open>option\<close>, \<open>None\<close>
    meaning that it does not return.
\<close>

subsection \<open>\<^verbatim>\<open>convert_base\<close>, naive code\<close>

text \<open>
  The inner loop \<^verbatim>\<open>for (int j = out_len - 1; j >= 0; j--)\<close>: the first argument after the
  bases counts the positions still to visit, so that \<open>Suc j\<close> visits index \<open>j\<close>.
\<close>

fun naive_inner :: "nat \<Rightarrow> nat \<Rightarrow> nat \<Rightarrow> nat list \<Rightarrow> nat \<Rightarrow> nat list \<times> nat" where
  "naive_inner in_base out_base 0 out carry = (out, carry)"
| "naive_inner in_base out_base (Suc j) out carry =
     (let carry1 = (carry + out ! j * in_base) mod 2 ^ 16;
          out1 = out[j := (carry1 mod out_base) mod 256];
          carry2 = carry1 div out_base
      in naive_inner in_base out_base j out1 carry2)"

text \<open>The outer loop \<^verbatim>\<open>for (int i = 0; i < in_len; i++)\<close>, reading \<^verbatim>\<open>in[i]\<close> in turn.\<close>

fun naive_outer :: "nat \<Rightarrow> nat \<Rightarrow> nat list \<Rightarrow> nat list \<Rightarrow> int \<times> nat list" where
  "naive_outer in_base out_base [] out = (0, out)"
| "naive_outer in_base out_base (d # ds) out =
     (case naive_inner in_base out_base (length out) out d of
        (out1, carry) \<Rightarrow>
          if carry \<noteq> 0 then (- 1, out1)
          else naive_outer in_base out_base ds out1)"

definition convert_base_naive :: "nat list \<Rightarrow> nat \<Rightarrow> nat \<Rightarrow> nat \<Rightarrow> int \<times> nat list" where
  "convert_base_naive inp in_base out_len out_base =
     naive_outer in_base out_base inp (replicate out_len 0)"

subsection \<open>\<^verbatim>\<open>convert_base\<close>, optimized code\<close>

definition UINT64_MAX :: nat where
  "UINT64_MAX = 2 ^ 64 - 1"

text \<open>
  The loop that determines \<^verbatim>\<open>word_len\<close> and \<^verbatim>\<open>word_base\<close>. It does not return when
  \<^verbatim>\<open>in_base\<close> is 1.
\<close>

partial_function (option) word_loop :: "nat \<Rightarrow> nat \<Rightarrow> nat \<Rightarrow> nat \<Rightarrow> (nat \<times> nat) option" where
  "word_loop in_base out_base word_len word_base =
     (if word_base \<le> UINT64_MAX div ((in_base * out_base) mod 2 ^ 64)
      then word_loop in_base out_base (word_len + 1) ((word_base * in_base) mod 2 ^ 64)
      else Some (word_len, word_base))"

declare word_loop.simps [code]

text \<open>
  Reading one word: \<^verbatim>\<open>for (int j = i < 0 ? 0 : i; j < i + word_len; j++)\<close>, from
  \<^verbatim>\<open>carry = 0\<close>.
\<close>

definition read_word :: "nat list \<Rightarrow> nat \<Rightarrow> int \<Rightarrow> nat \<Rightarrow> nat" where
  "read_word inp in_base i word_len =
     fold (\<lambda>j carry. (carry * in_base + inp ! j) mod 2 ^ 64)
       [nat (if i < 0 then 0 else i) ..< nat (i + int word_len)] 0"

text \<open>
  The inner loop with its early exit; it returns \<^verbatim>\<open>out\<close>, \<^verbatim>\<open>carry\<close> and \<^verbatim>\<open>out_used\<close>.
\<close>

fun opt_inner :: "nat \<Rightarrow> nat \<Rightarrow> nat \<Rightarrow> nat list \<Rightarrow> nat \<Rightarrow> int \<Rightarrow> nat list \<times> nat \<times> int" where
  "opt_inner word_base out_base 0 out carry out_used = (out, carry, out_used)"
| "opt_inner word_base out_base (Suc j) out carry out_used =
     (let carry1 = (carry + (out ! j * word_base) mod 2 ^ 64) mod 2 ^ 64;
          out1 = out[j := (carry1 mod out_base) mod 256];
          carry2 = carry1 div out_base
      in if carry2 = 0 \<and> int j \<le> out_used then (out1, carry2, int j)
         else opt_inner word_base out_base j out1 carry2 out_used)"

text \<open>The outer loop \<^verbatim>\<open>for (; i < in_len; i += word_len)\<close>.\<close>

partial_function (option) opt_outer ::
  "nat list \<Rightarrow> nat \<Rightarrow> nat \<Rightarrow> nat \<Rightarrow> nat \<Rightarrow> int \<Rightarrow> nat list \<Rightarrow> int \<Rightarrow> (int \<times> nat list) option" where
  "opt_outer inp in_base out_base word_len word_base i out out_used =
     (if i < int (length inp) then
        (case opt_inner word_base out_base (length out) out
                (read_word inp in_base i word_len) out_used of
           (out1, carry, out_used1) \<Rightarrow>
             if carry \<noteq> 0 then Some (- 1, out1)
             else opt_outer inp in_base out_base word_len word_base
                    (i + int word_len) out1 out_used1)
      else Some (0, out))"

declare opt_outer.simps [code]

definition convert_base_opt :: "nat list \<Rightarrow> nat \<Rightarrow> nat \<Rightarrow> nat \<Rightarrow> (int \<times> nat list) option" where
  "convert_base_opt inp in_base out_len out_base =
     (case word_loop in_base out_base 1 (in_base mod 2 ^ 64) of
        None \<Rightarrow> None
      | Some (word_len, word_base) \<Rightarrow>
          (let out_used = int out_len - 1;
               i0 = int (length inp) mod int word_len;
               i = (if i0 > 0 then i0 - int word_len else i0)
           in opt_outer inp in_base out_base word_len word_base i
                (replicate out_len 0) out_used))"

text \<open>\<^verbatim>\<open>convert_base\<close> of the later revision; the flag is \<^verbatim>\<open>USE_NAIVE_CODE\<close>.\<close>

definition convert_base :: "bool \<Rightarrow> nat list \<Rightarrow> nat \<Rightarrow> nat \<Rightarrow> nat \<Rightarrow> (int \<times> nat list) option" where
  "convert_base use_naive_code inp in_base out_len out_base =
     (if use_naive_code then Some (convert_base_naive inp in_base out_len out_base)
      else convert_base_opt inp in_base out_len out_base)"

subsection \<open>The values held in \<^verbatim>\<open>carry\<close>\<close>

text \<open>
  The loops of \<^verbatim>\<open>convert_base\<close> once more, instrumented: they return, in order, the values
  that the statements assign to \<^verbatim>\<open>carry\<close>, the right-hand side of each assignment being
  computed exactly, before it is reduced to the width of the accumulator (so that a
  value above the maximum of the type is a wraparound). The state goes on as in the
  loops above.
\<close>

fun naive_inner_carries :: "nat \<Rightarrow> nat \<Rightarrow> nat \<Rightarrow> nat list \<Rightarrow> nat \<Rightarrow> nat list" where
  "naive_inner_carries in_base out_base 0 out carry = []"
| "naive_inner_carries in_base out_base (Suc j) out carry =
     (let carry1 = (carry + out ! j * in_base) mod 2 ^ 16;
          out1 = out[j := (carry1 mod out_base) mod 256];
          carry2 = carry1 div out_base
      in (carry + out ! j * in_base) # carry2 #
         naive_inner_carries in_base out_base j out1 carry2)"

fun naive_outer_carries :: "nat \<Rightarrow> nat \<Rightarrow> nat list \<Rightarrow> nat list \<Rightarrow> nat list" where
  "naive_outer_carries in_base out_base [] out = []"
| "naive_outer_carries in_base out_base (d # ds) out =
     d # naive_inner_carries in_base out_base (length out) out d @
     (case naive_inner in_base out_base (length out) out d of
        (out1, carry) \<Rightarrow>
          if carry \<noteq> 0 then []
          else naive_outer_carries in_base out_base ds out1)"

definition naive_carries :: "nat list \<Rightarrow> nat \<Rightarrow> nat \<Rightarrow> nat \<Rightarrow> nat list" where
  "naive_carries inp in_base out_len out_base =
     naive_outer_carries in_base out_base inp (replicate out_len 0)"

fun read_carries :: "nat list \<Rightarrow> nat \<Rightarrow> nat list \<Rightarrow> nat \<Rightarrow> nat list" where
  "read_carries inp in_base [] carry = []"
| "read_carries inp in_base (j # js) carry =
     (carry * in_base + inp ! j) #
     read_carries inp in_base js ((carry * in_base + inp ! j) mod 2 ^ 64)"

definition read_word_carries :: "nat list \<Rightarrow> nat \<Rightarrow> int \<Rightarrow> nat \<Rightarrow> nat list" where
  "read_word_carries inp in_base i word_len =
     0 # read_carries inp in_base
           [nat (if i < 0 then 0 else i) ..< nat (i + int word_len)] 0"

fun opt_inner_carries :: "nat \<Rightarrow> nat \<Rightarrow> nat \<Rightarrow> nat list \<Rightarrow> nat \<Rightarrow> int \<Rightarrow> nat list" where
  "opt_inner_carries word_base out_base 0 out carry out_used = []"
| "opt_inner_carries word_base out_base (Suc j) out carry out_used =
     (let carry1 = (carry + (out ! j * word_base) mod 2 ^ 64) mod 2 ^ 64;
          out1 = out[j := (carry1 mod out_base) mod 256];
          carry2 = carry1 div out_base
      in (carry + out ! j * word_base) # carry2 #
         (if carry2 = 0 \<and> int j \<le> out_used then []
          else opt_inner_carries word_base out_base j out1 carry2 out_used))"

text \<open>The last argument collects the values of the iterations already done.\<close>

partial_function (option) opt_outer_carries ::
  "nat list \<Rightarrow> nat \<Rightarrow> nat \<Rightarrow> nat \<Rightarrow> nat \<Rightarrow> int \<Rightarrow> nat list \<Rightarrow> int \<Rightarrow> nat list \<Rightarrow> nat list option" where
  "opt_outer_carries inp in_base out_base word_len word_base i out out_used seen =
     (if i < int (length inp) then
        (case opt_inner word_base out_base (length out) out
                (read_word inp in_base i word_len) out_used of
           (out1, carry, out_used1) \<Rightarrow>
             (let seen1 = seen @ read_word_carries inp in_base i word_len @
                    opt_inner_carries word_base out_base (length out) out
                      (read_word inp in_base i word_len) out_used
              in if carry \<noteq> 0 then Some seen1
                 else opt_outer_carries inp in_base out_base word_len word_base
                        (i + int word_len) out1 out_used1 seen1))
      else Some seen)"

declare opt_outer_carries.simps [code]

definition opt_carries :: "nat list \<Rightarrow> nat \<Rightarrow> nat \<Rightarrow> nat \<Rightarrow> nat list option" where
  "opt_carries inp in_base out_len out_base =
     (case word_loop in_base out_base 1 (in_base mod 2 ^ 64) of
        None \<Rightarrow> None
      | Some (word_len, word_base) \<Rightarrow>
          (let out_used = int out_len - 1;
               i0 = int (length inp) mod int word_len;
               i = (if i0 > 0 then i0 - int word_len else i0)
           in opt_outer_carries inp in_base out_base word_len word_base i
                (replicate out_len 0) out_used []))"

subsection \<open>\<^verbatim>\<open>encode\<close>\<close>

text \<open>The only failure of \<^verbatim>\<open>encode\<close> is its assertion \<^verbatim>\<open>assert(err == 0)\<close>.\<close>

datatype error = AssertionFailed

text \<open>The digit characters of the later revision and of \<^verbatim>\<open>base36_128.c\<close>.\<close>

definition DIGITS :: string where
  "DIGITS = ''0123456789abcdefghijklmnopqrstuvwxyz''"

definition DIGITS_base36_128_c :: string where
  "DIGITS_base36_128_c = ''0123456789ABCDEFGHIJKLMNOPQRSTUVWXYZ''"

text \<open>
  \<^verbatim>\<open>encode\<close> reads 16 bytes and returns the 26 bytes it writes to \<^verbatim>\<open>out\<close>: 25 digit
  characters and the terminating NUL. The two revisions differ in the digit characters
  only, which are the first argument here.
\<close>

definition encode_with :: "string \<Rightarrow> bool \<Rightarrow> nat list \<Rightarrow> (error + string) option" where
  "encode_with digits use_naive_code bytes =
     (case convert_base use_naive_code (take 16 bytes) 256 25 36 of
        None \<Rightarrow> None
      | Some (err, digit_values) \<Rightarrow>
          if err \<noteq> 0 then Some (Inl AssertionFailed)
          else Some (Inr (map (\<lambda>i. digits ! (digit_values ! i)) [0..<25] @ [CHR 0x00])))"

definition encode :: "bool \<Rightarrow> nat list \<Rightarrow> (error + string) option" where
  "encode = encode_with DIGITS"

definition encode_base36_128_c :: "nat list \<Rightarrow> (error + string) option" where
  "encode_base36_128_c = encode_with DIGITS_base36_128_c True"

subsection \<open>\<^verbatim>\<open>decode\<close>\<close>

definition DECODE_MAP :: "nat list" where
  "DECODE_MAP =
     [0xff, 0xff, 0xff, 0xff, 0xff, 0xff, 0xff, 0xff, 0xff, 0xff, 0xff, 0xff,
      0xff, 0xff, 0xff, 0xff, 0xff, 0xff, 0xff, 0xff, 0xff, 0xff, 0xff, 0xff,
      0xff, 0xff, 0xff, 0xff, 0xff, 0xff, 0xff, 0xff, 0xff, 0xff, 0xff, 0xff,
      0xff, 0xff, 0xff, 0xff, 0xff, 0xff, 0xff, 0xff, 0xff, 0xff, 0xff, 0xff,
      0x00, 0x01, 0x02, 0x03, 0x04, 0x05, 0x06, 0x07, 0x08, 0x09, 0xff, 0xff,
      0xff, 0xff, 0xff, 0xff, 0xff, 0x0a, 0x0b, 0x0c, 0x0d, 0x0e, 0x0f, 0x10,
      0x11, 0x12, 0x13, 0x14, 0x15, 0x16, 0x17, 0x18, 0x19, 0x1a, 0x1b, 0x1c,
      0x1d, 0x1e, 0x1f, 0x20, 0x21, 0x22, 0x23, 0xff, 0xff, 0xff, 0xff, 0xff,
      0xff, 0x0a, 0x0b, 0x0c, 0x0d, 0x0e, 0x0f, 0x10, 0x11, 0x12, 0x13, 0x14,
      0x15, 0x16, 0x17, 0x18, 0x19, 0x1a, 0x1b, 0x1c, 0x1d, 0x1e, 0x1f, 0x20,
      0x21, 0x22, 0x23, 0xff, 0xff, 0xff, 0xff, 0xff]"

text \<open>
  \<^verbatim>\<open>text\<close> points to a NUL-terminated string: the list holds the bytes at the pointer,
  and the terminator follows them. The loops below never read past the first NUL, which
  is not a digit character.
\<close>

definition text_at :: "string \<Rightarrow> nat \<Rightarrow> char" where
  "text_at text i = (if i < length text then text ! i else CHR 0x00)"

text \<open>
  The loop \<^verbatim>\<open>for (int i = 0; i < 25; i++)\<close> that fills \<^verbatim>\<open>digit_values\<close>; \<open>None\<close>
  is its \<^verbatim>\<open>return -1\<close> on an invalid digit character.
\<close>

function decode_chars :: "string \<Rightarrow> nat \<Rightarrow> nat list \<Rightarrow> nat list option" where
  "decode_chars text i digit_values =
     (if i < 25 then
        (let code = (of_char (text_at text i) :: nat)
         in if code > 127 \<or> DECODE_MAP ! code = 0xff then None
            else decode_chars text (i + 1) (digit_values @ [DECODE_MAP ! code]))
      else Some digit_values)"
  by pat_completeness auto
termination
  by (relation "measure (\<lambda>(text, i, digit_values). 25 - i)") auto

declare decode_chars.simps [simp del]

text \<open>
  \<^verbatim>\<open>decode\<close> takes the text and the content of the 16-byte array \<^verbatim>\<open>out\<close> before the
  call; it returns the return code and the content of \<^verbatim>\<open>out\<close> after the call.
\<close>

definition decode :: "bool \<Rightarrow> string \<Rightarrow> nat list \<Rightarrow> (int \<times> nat list) option" where
  "decode use_naive_code text out =
     (case decode_chars text 0 [] of
        None \<Rightarrow> Some (- 1, out)
      | Some digit_values \<Rightarrow>
          if text_at text 25 \<noteq> CHR 0x00 then Some (- 1, out)
          else (case convert_base use_naive_code digit_values 36 16 256 of
                  None \<Rightarrow> None
                | Some (err, out1) \<Rightarrow>
                    if err \<noteq> 0 then Some (- 1, out1) else Some (0, out1)))"

subsection \<open>Numerals and alphabets of the specification\<close>

text \<open>The integer that a digit-value array denotes, most significant digit first.\<close>

definition digits_value :: "nat \<Rightarrow> nat list \<Rightarrow> nat" where
  "digits_value base ds = foldl (\<lambda>a d. a * base + d) 0 ds"

text \<open>
  The numeral of \<open>n\<close> in \<open>base\<close>, most significant digit first, zero-padded on the left
  to \<open>len\<close> digits (the digits of \<open>n mod base ^ len\<close>).
\<close>

fun to_digits :: "nat \<Rightarrow> nat \<Rightarrow> nat \<Rightarrow> nat list" where
  "to_digits base 0 n = []"
| "to_digits base (Suc len) n = to_digits base len (n div base) @ [n mod base]"

text \<open>The precondition of \<^verbatim>\<open>convert_base\<close>.\<close>

definition convert_pre :: "nat list \<Rightarrow> nat \<Rightarrow> nat \<Rightarrow> bool" where
  "convert_pre inp in_base out_base \<longleftrightarrow>
     2 \<le> in_base \<and> in_base \<le> 256 \<and> 2 \<le> out_base \<and> out_base \<le> 256 \<and>
     list_all (\<lambda>d. d < in_base) inp"

text \<open>A 16-byte array.\<close>

definition bytes16 :: "nat list \<Rightarrow> bool" where
  "bytes16 b \<longleftrightarrow> length b = 16 \<and> list_all (\<lambda>x. x < 256) b"

definition decimal_digits :: string where
  "decimal_digits = ''0123456789''"

definition lower_letters :: string where
  "lower_letters = ''abcdefghijklmnopqrstuvwxyz''"

definition upper_letters :: string where
  "upper_letters = ''ABCDEFGHIJKLMNOPQRSTUVWXYZ''"

definition base36_char :: "char \<Rightarrow> bool" where
  "base36_char c \<longleftrightarrow>
     c \<in> set decimal_digits \<or> c \<in> set upper_letters \<or> c \<in> set lower_letters"

fun index_of :: "'a \<Rightarrow> 'a list \<Rightarrow> nat" where
  "index_of x [] = 0"
| "index_of x (y # ys) = (if x = y then 0 else Suc (index_of x ys))"

text \<open>The digit value of a character of the alphabet, letters in either case.\<close>

definition base36_value :: "char \<Rightarrow> nat" where
  "base36_value c =
     (if c \<in> set decimal_digits then index_of c decimal_digits
      else if c \<in> set lower_letters then 10 + index_of c lower_letters
      else 10 + index_of c upper_letters)"

text \<open>The base-36 value of the first 25 characters of a text.\<close>

definition text_value :: "string \<Rightarrow> nat" where
  "text_value text = digits_value 36 (map (\<lambda>i. base36_value (text_at text i)) [0..<25])"

text \<open>
  The texts that \<^verbatim>\<open>decode\<close> reads as 25 digits: the first 25 characters are of the
  alphabet \<open>0-9\<close>, \<open>A-Z\<close>, \<open>a-z\<close> and the 26th is the NUL terminator.
\<close>

definition digits_text :: "string \<Rightarrow> bool" where
  "digits_text text \<longleftrightarrow>
     list_all (\<lambda>i. base36_char (text_at text i)) [0..<25] \<and> text_at text 25 = CHR 0x00"

text \<open>The canonical lowercase alphabet \<open>0-9a-z\<close>, and the uppercase alphabet \<open>0-9A-Z\<close>.\<close>

definition canonical_char :: "char \<Rightarrow> bool" where
  "canonical_char c \<longleftrightarrow> c \<in> set decimal_digits \<or> c \<in> set lower_letters"

definition uppercase_char :: "char \<Rightarrow> bool" where
  "uppercase_char c \<longleftrightarrow> c \<in> set decimal_digits \<or> c \<in> set upper_letters"



section \<open>Digit-value arrays\<close>

lemma digits_value_Nil [simp]: "digits_value b [] = 0"
  by (simp add: digits_value_def)

lemma digits_value_snoc [simp]: "digits_value b (xs @ [x]) = digits_value b xs * b + x"
  by (simp add: digits_value_def)

lemma digits_value_append:
  "digits_value b (xs @ ys) = digits_value b xs * b ^ length ys + digits_value b ys"
proof (induction ys rule: rev_induct)
  case Nil
  show ?case by simp
next
  case (snoc y ys)
  have "digits_value b (xs @ ys @ [y]) = digits_value b (xs @ ys) * b + y"
    using digits_value_snoc [of b "xs @ ys" y] by simp
  with snoc show ?case by (simp add: algebra_simps)
qed

lemma digits_value_Cons:
  "digits_value b (x # xs) = x * b ^ length xs + digits_value b xs"
  using digits_value_append [of b "[x]" xs] digits_value_snoc [of b "[]" x] by simp

lemma digits_value_replicate_0 [simp]: "digits_value b (replicate n 0) = 0"
  by (induction n) (simp_all add: digits_value_Cons)

lemma digits_value_less:
  "\<forall>x\<in>set xs. x < b \<Longrightarrow> digits_value b xs < b ^ length xs"
proof (induction xs rule: rev_induct)
  case Nil
  show ?case by simp
next
  case (snoc x xs)
  then have v: "digits_value b xs < b ^ length xs" and x: "x < b" by simp_all
  from v have "digits_value b xs + 1 \<le> b ^ length xs" by simp
  then have "(digits_value b xs + 1) * b \<le> b ^ length xs * b" by (rule mult_le_mono1)
  with x show ?case by (simp add: algebra_simps)
qed

lemma length_to_digits [simp]: "length (to_digits b k n) = k"
  by (induction k arbitrary: n) simp_all

lemma to_digits_less: "0 < b \<Longrightarrow> x \<in> set (to_digits b k n) \<Longrightarrow> x < b"
  by (induction k arbitrary: n) auto

lemma digits_value_to_digits: "digits_value b (to_digits b k n) = n mod b ^ k"
proof (induction k arbitrary: n)
  case 0
  show ?case by simp
next
  case (Suc k)
  have "n mod (b * b ^ k) = b * (n div b mod b ^ k) + n mod b"
    by (rule mod_mult2_eq)
  with Suc show ?case by (simp add: algebra_simps)
qed

lemma to_digits_digits_value:
  "\<forall>x\<in>set xs. x < b \<Longrightarrow> to_digits b (length xs) (digits_value b xs) = xs"
proof (induction xs rule: rev_induct)
  case Nil
  show ?case by simp
next
  case (snoc x xs)
  then have x: "x < b" and IH: "to_digits b (length xs) (digits_value b xs) = xs" by simp_all
  from x have "(digits_value b xs * b + x) div b = digits_value b xs" by simp
  moreover from x have "(digits_value b xs * b + x) mod b = x" by simp
  ultimately show ?case using IH by simp
qed

lemma naive_inner_spec:
  assumes "naive_inner ib ob k out c = (out', c')"
    and "k \<le> length out" and "\<forall>x\<in>set out. x < ob" and "c < ib"
    and "ib \<le> 256" and "ob \<le> 256"
  shows "length out' = length out \<and> drop k out' = drop k out \<and> (\<forall>x\<in>set out'. x < ob) \<and>
         digits_value ob (take k out') + c' * ob ^ k = digits_value ob (take k out) * ib + c \<and>
         c' < ib"
  using assms
proof (induction k arbitrary: out c)
  case 0
  then show ?case by simp
next
  case (Suc j)
  define t where "t = c + out ! j * ib"
  define out1 where "out1 = out[j := t mod ob]"
  from Suc.prems have j: "j < length out" by simp
  with Suc.prems have oj: "out ! j < ob" by simp
  then have ob0: "0 < ob" by simp
  from oj have "out ! j + 1 \<le> ob" by simp
  then have "(out ! j + 1) * ib \<le> ob * ib" by (rule mult_le_mono1)
  with \<open>c < ib\<close> have t_lt: "t < ob * ib" by (simp add: t_def algebra_simps)
  from \<open>ob \<le> 256\<close> \<open>ib \<le> 256\<close> have "ob * ib \<le> 256 * 256" by (rule mult_le_mono)
  with t_lt have t16: "t mod 65536 = t" by simp
  from ob0 \<open>ob \<le> 256\<close> have "t mod ob < 256"
    by (meson mod_less_divisor less_le_trans)
  then have m256: "t mod ob mod 256 = t mod ob" by simp
  from t_lt ob0 have c1: "t div ob < ib" by (simp add: less_mult_imp_div_less mult.commute)
  from Suc.prems(1) have rec: "naive_inner ib ob j out1 (t div ob) = (out', c')"
    by (simp add: t_def [symmetric] t16 m256 out1_def [symmetric] Let_def)
  have b1: "\<forall>x\<in>set out1. x < ob"
    using Suc.prems(3) ob0 unfolding out1_def by (auto dest!: set_update_subset_insert [THEN subsetD])
  have len1: "length out1 = length out" by (simp add: out1_def)
  from Suc.IH [OF rec _ b1 c1 \<open>ib \<le> 256\<close> \<open>ob \<le> 256\<close>] j len1
  have L: "length out' = length out" and D: "drop j out' = drop j out1"
    and B: "\<forall>x\<in>set out'. x < ob"
    and V: "digits_value ob (take j out') + c' * ob ^ j = digits_value ob (take j out1) * ib + t div ob"
    and C: "c' < ib" by simp_all
  have t1: "take j out1 = take j out" by (simp add: out1_def)
  have "out' ! j = out1 ! j"
    using D j L len1 by (metis Cons_nth_drop_Suc nth_via_drop)
  then have oj': "out' ! j = t mod ob" using j by (simp add: out1_def)
  have D': "drop (Suc j) out' = drop (Suc j) out"
  proof -
    have "drop (Suc j) out' = drop 1 (drop j out')" by simp
    also have "\<dots> = drop 1 (drop j out1)" by (simp only: D)
    also have "\<dots> = drop (Suc j) out" by (simp add: out1_def)
    finally show ?thesis .
  qed
  have T': "take (Suc j) out' = take j out' @ [out' ! j]"
    using j L by (simp add: take_Suc_conv_app_nth)
  have T: "take (Suc j) out = take j out @ [out ! j]"
    using j by (simp add: take_Suc_conv_app_nth)
  have "digits_value ob (take (Suc j) out') + c' * ob ^ Suc j
        = ob * (digits_value ob (take j out') + c' * ob ^ j) + t mod ob"
    by (simp add: T' oj' algebra_simps)
  also have "\<dots> = ob * (digits_value ob (take j out) * ib + t div ob) + t mod ob"
    by (simp only: V t1)
  also have "\<dots> = ob * digits_value ob (take j out) * ib + (ob * (t div ob) + t mod ob)"
    by (simp add: algebra_simps)
  also have "\<dots> = ob * digits_value ob (take j out) * ib + t" by simp
  also have "\<dots> = digits_value ob (take (Suc j) out) * ib + c"
    by (simp add: T t_def algebra_simps)
  finally show ?case using L D' B C by simp
qed


lemma naive_outer_spec:
  assumes "naive_outer ib ob ds out = (rc, out')"
    and "\<forall>x\<in>set out. x < ob" and "\<forall>d\<in>set ds. d < ib"
    and "0 < ib" and "ib \<le> 256" and "ob \<le> 256"
  shows "(rc = 0 \<or> rc = - 1) \<and>
         (rc = 0 \<longleftrightarrow>
            digits_value ob out * ib ^ length ds + digits_value ib ds < ob ^ length out) \<and>
         (rc = 0 \<longrightarrow> out' = to_digits ob (length out)
            (digits_value ob out * ib ^ length ds + digits_value ib ds))"
  using assms
proof (induction ds arbitrary: out)
  case Nil
  then show ?case
    using digits_value_less [of out ob] to_digits_digits_value [of out ob] by auto
next
  case (Cons d ds)
  obtain out1 c where in1: "naive_inner ib ob (length out) out d = (out1, c)"
    by (cases "naive_inner ib ob (length out) out d")
  from Cons.prems have d: "d < ib" by simp
  have spec: "length out1 = length out \<and> drop (length out) out1 = drop (length out) out \<and>
      (\<forall>x\<in>set out1. x < ob) \<and>
      digits_value ob (take (length out) out1) + c * ob ^ length out =
        digits_value ob (take (length out) out) * ib + d \<and> c < ib"
    by (rule naive_inner_spec [OF in1 _ Cons.prems(2) d \<open>ib \<le> 256\<close> \<open>ob \<le> 256\<close>]) simp
  then have L: "length out1 = length out" and B: "\<forall>x\<in>set out1. x < ob" by simp_all
  from spec L have V: "digits_value ob out1 + c * ob ^ length out = digits_value ob out * ib + d"
    by (metis order_refl take_all)
  from digits_value_less [OF B] L have lt: "digits_value ob out1 < ob ^ length out" by simp
  let ?T = "digits_value ob out * ib ^ length (d # ds) + digits_value ib (d # ds)"
  have T: "?T = (digits_value ob out * ib + d) * ib ^ length ds + digits_value ib ds"
    by (simp add: digits_value_Cons algebra_simps)
  show ?case
  proof (cases "c = 0")
    case True
    with Cons.prems(1) in1 have rec: "naive_outer ib ob ds out1 = (rc, out')" by simp
    from Cons.prems have ds: "\<forall>d\<in>set ds. d < ib" by simp
    from True V have "digits_value ob out1 = digits_value ob out * ib + d" by simp
    then have "digits_value ob out1 * ib ^ length ds + digits_value ib ds = ?T"
      by (simp only: T)
    with Cons.IH [OF rec B ds \<open>0 < ib\<close> \<open>ib \<le> 256\<close> \<open>ob \<le> 256\<close>] L
    show ?thesis by metis
  next
    case False
    with Cons.prems(1) in1 have rc: "rc = - 1" by simp
    from False have "ob ^ length out \<le> c * ob ^ length out" by simp
    with V have "ob ^ length out \<le> digits_value ob out * ib + d" by linarith
    also have "\<dots> \<le> (digits_value ob out * ib + d) * ib ^ length ds"
      using \<open>0 < ib\<close> by simp
    also have "\<dots> \<le> ?T" by (simp only: T le_add1)
    finally have "\<not> ?T < ob ^ length out" by simp
    with rc show ?thesis by simp
  qed
qed

lemma convert_base_naive_spec:
  assumes "convert_base_naive inp ib n ob = (rc, out)"
    and "\<forall>d\<in>set inp. d < ib" and "0 < ib" and "ib \<le> 256" and "ob \<le> 256" and "0 < ob"
  shows "(rc = 0 \<or> rc = - 1) \<and> (rc = 0 \<longleftrightarrow> digits_value ib inp < ob ^ n) \<and>
         (rc = 0 \<longrightarrow> out = to_digits ob n (digits_value ib inp))"
proof -
  from assms(1) have run: "naive_outer ib ob inp (replicate n 0) = (rc, out)"
    by (simp add: convert_base_naive_def)
  have "\<forall>x\<in>set (replicate n (0::nat)). x < ob" using \<open>0 < ob\<close> by simp
  from naive_outer_spec [OF run this assms(2-5)] show ?thesis
    by auto
qed


lemma word_loop_spec:
  assumes "2 \<le> ib" and "ib \<le> 256" and "0 < ob" and "ob \<le> 256"
    and "wb = ib ^ wl" and "wb * ob \<le> UINT64_MAX"
  shows "\<exists>wl' wb'. word_loop ib ob wl wb = Some (wl', wb') \<and> wl \<le> wl' \<and>
           wb' = ib ^ wl' \<and> wb' * ob \<le> UINT64_MAX"
  using assms(5,6)
proof (induction "2 ^ 64 - wb" arbitrary: wl wb rule: less_induct)
  case less
  from \<open>ib \<le> 256\<close> \<open>ob \<le> 256\<close> have "ib * ob \<le> 256 * 256"
    by (rule mult_le_mono)
  then have prod: "(ib * ob) mod 2 ^ 64 = ib * ob" by simp
  from assms have pos: "0 < ib * ob" by simp
  from assms less.prems have wb1: "1 \<le> wb" by simp
  show ?case
  proof (cases "wb \<le> UINT64_MAX div (ib * ob)")
    case True
    then have "wb * (ib * ob) \<le> UINT64_MAX" 
      using pos by (simp add: less_eq_div_iff_mult_less_eq)
    then have le: "(wb * ib) * ob \<le> UINT64_MAX" by (simp add: mult.assoc)
    have ge: "wb * ib \<le> (wb * ib) * ob" using \<open>0 < ob\<close> by (cases ob) simp_all
    have U: "UINT64_MAX < 2 ^ 64" by (simp add: UINT64_MAX_def)
    from ge le U have lt: "wb * ib < 2 ^ 64" by linarith
    then have nowrap: "(wb * ib) mod 2 ^ 64 = wb * ib" by simp
    have grow: "wb < wb * ib" using wb1 \<open>2 \<le> ib\<close> by simp
    with lt have dec: "2 ^ 64 - wb * ib < (2::nat) ^ 64 - wb" by linarith
    have pw: "wb * ib = ib ^ (wl + 1)" using less.prems by simp
    from less.hyps [OF dec pw le]
    obtain wl' wb' where "word_loop ib ob (wl + 1) (wb * ib) = Some (wl', wb')"
      and "wl + 1 \<le> wl'" and "wb' = ib ^ wl'" and "wb' * ob \<le> UINT64_MAX" by blast
    moreover have "word_loop ib ob wl wb = word_loop ib ob (wl + 1) (wb * ib)"
      using True by (subst word_loop.simps) (simp only: prod nowrap if_True)
    ultimately show ?thesis by auto
  next
    case False
    then have "word_loop ib ob wl wb = Some (wl, wb)"
      by (subst word_loop.simps) (simp only: prod if_False)
    with less.prems show ?thesis by simp
  qed
qed

lemma read_fold:
  assumes "lo \<le> hi" and "hi \<le> length inp" and "\<forall>d\<in>set inp. d < ib"
    and "ib ^ (hi - lo) \<le> 2 ^ 64" and "0 < ib"
  shows "fold (\<lambda>j carry. (carry * ib + inp ! j) mod 2 ^ 64) [lo..<hi] 0 =
         digits_value ib (take (hi - lo) (drop lo inp))"
  using assms(1,2,4)
proof (induction hi)
  case 0
  then show ?case by simp
next
  case (Suc hi)
  show ?case
  proof (cases "lo = Suc hi")
    case True
    then show ?thesis by simp
  next
    case False
    with Suc.prems have lo: "lo \<le> hi" and hi: "hi < length inp" by simp_all
    have "ib ^ (hi - lo) \<le> ib ^ (Suc hi - lo)"
      using \<open>0 < ib\<close> by (intro power_increasing) simp_all
    with Suc.prems have "ib ^ (hi - lo) \<le> 2 ^ 64" by simp
    with Suc.IH lo hi have IH: "fold (\<lambda>j carry. (carry * ib + inp ! j) mod 2 ^ 64) [lo..<hi] 0 =
         digits_value ib (take (hi - lo) (drop lo inp))" by simp
    have S: "Suc hi - lo = Suc (hi - lo)" using lo by simp
    have sl: "take (Suc hi - lo) (drop lo inp) = take (hi - lo) (drop lo inp) @ [inp ! hi]"
      using lo hi by (simp add: S take_Suc_conv_app_nth)
    have "\<forall>d\<in>set (take (Suc hi - lo) (drop lo inp)). d < ib"
      using assms(3) by (meson in_set_takeD in_set_dropD)
    from digits_value_less [OF this] lo hi
    have "digits_value ib (take (Suc hi - lo) (drop lo inp)) < ib ^ (Suc hi - lo)"
      by simp
    with Suc.prems have "digits_value ib (take (Suc hi - lo) (drop lo inp)) < 2 ^ 64" by simp
    then have "(digits_value ib (take (hi - lo) (drop lo inp)) * ib + inp ! hi) mod 2 ^ 64
        = digits_value ib (take (Suc hi - lo) (drop lo inp))"
      by (simp add: sl)
    with IH lo show ?thesis by (simp add: upt_Suc_append del: upt_Suc)
  qed
qed


lemma digits_value_zeros: "\<forall>x\<in>set xs. x = 0 \<Longrightarrow> digits_value b xs = 0"
  by (induction xs rule: rev_induct) simp_all

lemma opt_inner_spec:
  assumes "opt_inner wb ob k out c ou = (out', c', ou')"
    and "k \<le> length out" and "\<forall>x\<in>set out. x < ob" and "c < wb"
    and "wb * ob \<le> UINT64_MAX" and "ob \<le> 256"
    and "\<forall>i<k. int i < ou \<longrightarrow> out ! i = 0"
    and "c = 0 \<longrightarrow> ou < int k"
  shows "length out' = length out \<and> drop k out' = drop k out \<and> (\<forall>x\<in>set out'. x < ob) \<and>
         digits_value ob (take k out') + c' * ob ^ k = digits_value ob (take k out) * wb + c \<and>
         c' < wb \<and>
         (c' = 0 \<longrightarrow> (\<forall>i<k. int i < ou' \<longrightarrow> out' ! i = 0) \<and> ou' < int k)"
  using assms(1-4,7,8)
proof (induction k arbitrary: out c)
  case 0
  then show ?case by simp
next
  case (Suc j)
  define t where "t = c + out ! j * wb"
  define out1 where "out1 = out[j := t mod ob]"
  from Suc.prems have j: "j < length out" by simp
  with Suc.prems have oj: "out ! j < ob" by simp
  then have ob0: "0 < ob" by simp
  from oj have "out ! j + 1 \<le> ob" by simp
  then have "(out ! j + 1) * wb \<le> ob * wb" by (rule mult_le_mono1)
  with \<open>c < wb\<close> have t_lt: "t < ob * wb" by (simp add: t_def algebra_simps)
  have U: "UINT64_MAX < 2 ^ 64" by (simp add: UINT64_MAX_def)
  from t_lt assms(5) U have t_small: "t < 2 ^ 64" by (simp add: mult.commute)
  have "out ! j * wb \<le> t" by (simp add: t_def)
  with t_small have p64: "(out ! j * wb) mod 2 ^ 64 = out ! j * wb" by simp
  from t_small have t64: "t mod 2 ^ 64 = t" by simp
  from ob0 \<open>ob \<le> 256\<close> have "t mod ob < 256"
    by (meson mod_less_divisor less_le_trans)
  then have m256: "t mod ob mod 256 = t mod ob" by simp
  from t_lt ob0 have c1: "t div ob < wb" by (simp add: less_mult_imp_div_less mult.commute)
  have step: "opt_inner wb ob (Suc j) out c ou =
      (if t div ob = 0 \<and> int j \<le> ou then (out1, t div ob, int j)
       else opt_inner wb ob j out1 (t div ob) ou)"
    by (simp only: opt_inner.simps Let_def p64 t_def [symmetric] t64 m256 out1_def [symmetric])
  have b1: "\<forall>x\<in>set out1. x < ob"
    using Suc.prems(3) ob0 unfolding out1_def by (auto dest!: set_update_subset_insert [THEN subsetD])
  have len1: "length out1 = length out" by (simp add: out1_def)
  have t1: "take j out1 = take j out" by (simp add: out1_def)
  have d1: "drop (Suc j) out1 = drop (Suc j) out" by (simp add: out1_def)
  have n1: "out1 ! j = t mod ob" using j by (simp add: out1_def)
  have T: "take (Suc j) out = take j out @ [out ! j]"
    using j by (simp add: take_Suc_conv_app_nth)
  show ?case
  proof (cases "t div ob = 0 \<and> int j \<le> ou")
    case True
    with step Suc.prems(1) have res: "out' = out1" "c' = 0" "ou' = int j" by simp_all
    have "\<forall>x\<in>set (take j out). x = 0"
    proof
      fix x assume "x \<in> set (take j out)"
      then obtain i where "i < j" and "x = out ! i"
        using j by (auto simp: in_set_conv_nth)
      with True Suc.prems(5) show "x = 0" by simp
    qed
    then have z: "digits_value ob (take j out) = 0" by (rule digits_value_zeros)
    from True ob0 have "t mod ob = t"
      by (metis div_mult_mod_eq add_0 mult_0)
    then have "digits_value ob (take (Suc j) out1) = digits_value ob (take (Suc j) out) * wb + c"
      using j by (simp add: take_Suc_conv_app_nth len1 n1 t1 z T t_def)
    moreover have "\<forall>i<Suc j. int i < int j \<longrightarrow> out1 ! i = 0"
    proof (intro allI impI)
      fix i assume "i < Suc j" and "int i < int j"
      then have "i < j" by simp
      with True Suc.prems(5) have "out ! i = 0" by simp
      with \<open>i < j\<close> show "out1 ! i = 0" by (simp add: out1_def)
    qed
    moreover have "0 < wb" using \<open>c < wb\<close> by simp
    ultimately show ?thesis using res len1 d1 b1 by simp
  next
    case False
    with step Suc.prems(1) have rec: "opt_inner wb ob j out1 (t div ob) ou = (out', c', ou')"
      by simp
    have z1: "\<forall>i<j. int i < ou \<longrightarrow> out1 ! i = 0"
      using Suc.prems(5) by (simp add: out1_def)
    have cz: "t div ob = 0 \<longrightarrow> ou < int j" using False by auto
    have jl: "j \<le> length out1" using j len1 by simp
    from Suc.IH [OF rec jl b1 c1 z1 cz] len1
    have L: "length out' = length out" and D: "drop j out' = drop j out1"
      and B: "\<forall>x\<in>set out'. x < ob"
      and V: "digits_value ob (take j out') + c' * ob ^ j = digits_value ob (take j out1) * wb + t div ob"
      and C: "c' < wb"
      and Z: "c' = 0 \<longrightarrow> (\<forall>i<j. int i < ou' \<longrightarrow> out' ! i = 0) \<and> ou' < int j" by simp_all
    have "out' ! j = out1 ! j"
      using D j L len1 by (metis Cons_nth_drop_Suc nth_via_drop)
    then have oj': "out' ! j = t mod ob" by (simp add: n1)
    have D': "drop (Suc j) out' = drop (Suc j) out"
    proof -
      have "drop (Suc j) out' = drop 1 (drop j out')" by simp
      also have "\<dots> = drop 1 (drop j out1)" by (simp only: D)
      also have "\<dots> = drop (Suc j) out" by (simp add: out1_def)
      finally show ?thesis .
    qed
    have T': "take (Suc j) out' = take j out' @ [out' ! j]"
      using j L by (simp add: take_Suc_conv_app_nth)
    have "digits_value ob (take (Suc j) out') + c' * ob ^ Suc j
          = ob * (digits_value ob (take j out') + c' * ob ^ j) + t mod ob"
      by (simp add: T' oj' algebra_simps)
    also have "\<dots> = ob * (digits_value ob (take j out) * wb + t div ob) + t mod ob"
      by (simp only: V t1)
    also have "\<dots> = ob * digits_value ob (take j out) * wb + (ob * (t div ob) + t mod ob)"
      by (simp add: algebra_simps)
    also have "\<dots> = ob * digits_value ob (take j out) * wb + t" by simp
    also have "\<dots> = digits_value ob (take (Suc j) out) * wb + c"
      by (simp add: T t_def algebra_simps)
    finally have V': "digits_value ob (take (Suc j) out') + c' * ob ^ Suc j
        = digits_value ob (take (Suc j) out) * wb + c" .
    have Z': "c' = 0 \<longrightarrow> (\<forall>i<Suc j. int i < ou' \<longrightarrow> out' ! i = 0) \<and> ou' < int (Suc j)"
    proof
      assume "c' = 0"
      with Z have a: "\<forall>i<j. int i < ou' \<longrightarrow> out' ! i = 0" and b: "ou' < int j" by simp_all
      have "\<forall>i<Suc j. int i < ou' \<longrightarrow> out' ! i = 0"
      proof (intro allI impI)
        fix i assume "i < Suc j" and "int i < ou'"
        with b have "i < j" by simp
        with a \<open>int i < ou'\<close> show "out' ! i = 0" by simp
      qed
      with b show "(\<forall>i<Suc j. int i < ou' \<longrightarrow> out' ! i = 0) \<and> ou' < int (Suc j)" by simp
    qed
    from L D' B V' C Z' show ?thesis by blast
  qed
qed


lemma digits_value_take_le:
  assumes "0 < b" shows "digits_value b (take k xs) \<le> digits_value b xs"
proof -
  have "digits_value b (take k xs @ drop k xs) =
      digits_value b (take k xs) * b ^ length (drop k xs) + digits_value b (drop k xs)"
    by (rule digits_value_append)
  moreover have "digits_value b (take k xs) \<le> digits_value b (take k xs) * b ^ length (drop k xs)"
    by (cases "b ^ length (drop k xs)") (use assms in simp_all)
  ultimately show ?thesis by (simp only: append_take_drop_id trans_le_add1)
qed

lemma read_word_spec:
  assumes "- int wl < i" and "i + int wl \<le> int (length inp)"
    and "\<forall>d\<in>set inp. d < ib" and "0 < ib" and "ib ^ wl < 2 ^ 64"
  shows "read_word inp ib i wl =
           digits_value ib (take (nat (i + int wl) - nat i) (drop (nat i) inp)) \<and>
         read_word inp ib i wl < ib ^ wl"
proof -
  let ?lo = "nat i" and ?hi = "nat (i + int wl)"
  let ?S = "take (?hi - ?lo) (drop ?lo inp)"
  have lo: "nat (if i < 0 then 0 else i) = ?lo" by simp
  have lohi: "?lo \<le> ?hi" by simp
  have hi: "?hi \<le> length inp" using assms(2) by simp
  have len: "?hi - ?lo \<le> wl" by linarith
  then have pw: "ib ^ (?hi - ?lo) \<le> ib ^ wl"
    using \<open>0 < ib\<close> by (intro power_increasing) simp_all
  with assms(5) have "ib ^ (?hi - ?lo) \<le> 2 ^ 64" by simp
  from read_fold [OF lohi hi assms(3) this \<open>0 < ib\<close>]
  have eq: "read_word inp ib i wl = digits_value ib ?S"
    by (simp only: read_word_def lo)
  have "\<forall>d\<in>set ?S. d < ib"
    using assms(3) by (meson in_set_takeD in_set_dropD)
  from digits_value_less [OF this] have "digits_value ib ?S < ib ^ length ?S" .
  moreover have "length ?S = ?hi - ?lo" using hi by simp
  ultimately have "digits_value ib ?S < ib ^ wl" using pw by simp
  with eq show ?thesis by simp
qed

lemma opt_outer_spec:
  assumes "0 < ib" and "\<forall>d\<in>set inp. d < ib" and "ob \<le> 256"
    and "0 < wl" and "wb = ib ^ wl" and "wb * ob \<le> UINT64_MAX" and "0 < ob"
    and "- int wl < i" and "i \<le> int (length inp)"
    and "(int (length inp) - i) mod int wl = 0"
    and "\<forall>x\<in>set out. x < ob"
    and "digits_value ob out = digits_value ib (take (nat i) inp)"
    and "\<forall>k<length out. int k < ou \<longrightarrow> out ! k = 0"
    and "ou < int (length out)"
  shows "\<exists>rc out'. opt_outer inp ib ob wl wb i out ou = Some (rc, out') \<and>
           (rc = 0 \<or> rc = - 1) \<and>
           (rc = 0 \<longleftrightarrow> digits_value ib inp < ob ^ length out) \<and>
           (rc = 0 \<longrightarrow> out' = to_digits ob (length out) (digits_value ib inp))"
  using assms(8-14)
proof (induction "nat (int (length inp) - i)" arbitrary: i out ou rule: less_induct)
  case less
  let ?n = "int (length inp)"
  have U: "UINT64_MAX < 2 ^ 64" by (simp add: UINT64_MAX_def)
  have "wb \<le> wb * ob" using \<open>0 < ob\<close> by (cases ob) simp_all
  with assms(6) U have wb64: "wb < 2 ^ 64" by linarith
  show ?case
  proof (cases "i < ?n")
    case False
    with less.prems have i: "nat i = length inp" by simp
    from False have "opt_outer inp ib ob wl wb i out ou = Some (0, out)"
      by (subst opt_outer.simps) simp
    moreover from less.prems(5) i have v: "digits_value ob out = digits_value ib inp" by simp
    moreover from digits_value_less [OF less.prems(4)] v
    have "digits_value ib inp < ob ^ length out" by simp
    moreover from to_digits_digits_value [OF less.prems(4)] v
    have "out = to_digits ob (length out) (digits_value ib inp)" by simp
    ultimately show ?thesis by simp
  next
    case True
    let ?lo = "nat i" and ?hi = "nat (i + int wl)"
    let ?S = "take (?hi - ?lo) (drop ?lo inp)"
    from less.prems(3) have "int wl dvd ?n - i" by (simp add: mod_eq_0_iff_dvd)
    moreover from True have "0 < ?n - i" by simp
    ultimately have "int wl \<le> ?n - i" by (rule zdvd_imp_le)
    then have hi_le: "i + int wl \<le> ?n" by simp
    from assms(5) wb64 have "ib ^ wl < 2 ^ 64" by simp
    from read_word_spec [OF less.prems(1) hi_le assms(2) \<open>0 < ib\<close> this]
    have w: "read_word inp ib i wl = digits_value ib ?S"
      and w_lt: "read_word inp ib i wl < wb" by (simp_all add: assms(5))
    obtain out1 c ou1 where
      run: "opt_inner wb ob (length out) out (read_word inp ib i wl) ou = (out1, c, ou1)"
      by (cases "opt_inner wb ob (length out) out (read_word inp ib i wl) ou")
    have cz: "read_word inp ib i wl = 0 \<longrightarrow> ou < int (length out)"
      using less.prems(7) by simp
    have spec: "length out1 = length out \<and> drop (length out) out1 = drop (length out) out \<and>
        (\<forall>x\<in>set out1. x < ob) \<and>
        digits_value ob (take (length out) out1) + c * ob ^ length out =
          digits_value ob (take (length out) out) * wb + read_word inp ib i wl \<and>
        c < wb \<and>
        (c = 0 \<longrightarrow> (\<forall>i<length out. int i < ou1 \<longrightarrow> out1 ! i = 0) \<and> ou1 < int (length out))"
      by (rule opt_inner_spec [OF run _ less.prems(4) w_lt assms(6) assms(3) less.prems(6) cz])
        simp
    then have L: "length out1 = length out" and B: "\<forall>x\<in>set out1. x < ob"
      and Z: "c = 0 \<longrightarrow> (\<forall>k<length out. int k < ou1 \<longrightarrow> out1 ! k = 0) \<and> ou1 < int (length out)"
      by simp_all
    from spec L have V: "digits_value ob out1 + c * ob ^ length out =
        digits_value ob out * wb + read_word inp ib i wl"
      by (metis order_refl take_all)
    have split: "take ?hi inp = take ?lo inp @ ?S"
    proof -
      have "?hi = ?lo + (?hi - ?lo)" by simp
      then have "take ?hi inp = take (?lo + (?hi - ?lo)) inp" by simp
      then show ?thesis by (simp only: take_add)
    qed
    have lenS: "length ?S = ?hi - ?lo" using hi_le by simp
    have P: "digits_value ib (take ?hi inp) = digits_value ob out * wb + read_word inp ib i wl"
    proof (cases "i < 0")
      case True
      then have "digits_value ob out = 0" using less.prems(5) by simp
      moreover from True have "take ?hi inp = ?S" using split by simp
      ultimately show ?thesis using w by simp
    next
      case False
      then have "?hi - ?lo = wl" by simp
      with lenS have "ib ^ length ?S = wb" by (simp add: assms(5))
      with digits_value_append [of ib "take ?lo inp" ?S] split less.prems(5) w
      show ?thesis by simp
    qed
    show ?thesis
    proof (cases "c = 0")
      case False
      then have "opt_outer inp ib ob wl wb i out ou = Some (- 1, out1)"
        using True run by (subst opt_outer.simps) simp
      moreover have "\<not> digits_value ib inp < ob ^ length out"
      proof -
        from False have "ob ^ length out \<le> c * ob ^ length out" by simp
        with V P have "ob ^ length out \<le> digits_value ib (take ?hi inp)" by linarith
        also have "\<dots> \<le> digits_value ib inp" using \<open>0 < ib\<close> by (rule digits_value_take_le)
        finally show ?thesis by simp
      qed
      ultimately show ?thesis by simp
    next
      case c0: True
      then have unf: "opt_outer inp ib ob wl wb i out ou =
          opt_outer inp ib ob wl wb (i + int wl) out1 ou1"
        using True run by (subst opt_outer.simps) simp
      have dec: "nat (?n - (i + int wl)) < nat (?n - i)" using True \<open>0 < wl\<close> by simp
      have i1: "- int wl < i + int wl" using less.prems(1) by simp
      have i3: "(?n - (i + int wl)) mod int wl = 0"
        using less.prems(3) by (metis diff_diff_eq mod_0 mod_self minus_mod_self2 mod_diff_right_eq)
      from c0 V P have v1: "digits_value ob out1 = digits_value ib (take (nat (i + int wl)) inp)"
        by simp
      from c0 Z L have z1: "\<forall>k<length out1. int k < ou1 \<longrightarrow> out1 ! k = 0"
        and u1: "ou1 < int (length out1)" by simp_all
      from less.hyps [OF dec i1 hi_le i3 B v1 z1 u1] unf L show ?thesis by simp
    qed
  qed
qed

lemma convert_base_opt_spec:
  assumes "2 \<le> ib" and "ib \<le> 256" and "0 < ob" and "ob \<le> 256"
    and "\<forall>d\<in>set inp. d < ib"
  shows "\<exists>rc out. convert_base_opt inp ib n ob = Some (rc, out) \<and>
           (rc = 0 \<or> rc = - 1) \<and>
           (rc = 0 \<longleftrightarrow> digits_value ib inp < ob ^ n) \<and>
           (rc = 0 \<longrightarrow> out = to_digits ob n (digits_value ib inp))"
proof -
  from \<open>ib \<le> 256\<close> \<open>ob \<le> 256\<close> have "ib * ob \<le> 256 * 256" by (rule mult_le_mono)
  then have le: "ib ^ 1 * ob \<le> UINT64_MAX" by (simp add: UINT64_MAX_def)
  from word_loop_spec [OF assms(1-4) refl le]
  obtain wl wb where wl: "word_loop ib ob 1 (ib ^ 1) = Some (wl, wb)" and "1 \<le> wl"
    and wb: "wb = ib ^ wl" and wbob: "wb * ob \<le> UINT64_MAX" by blast
  from \<open>ib \<le> 256\<close> have ib64: "ib mod 2 ^ 64 = ib ^ 1" by simp
  let ?len = "int (length inp)"
  define i where "i = (if ?len mod int wl > 0 then ?len mod int wl - int wl else ?len mod int wl)"
  from \<open>1 \<le> wl\<close> have wl0: "0 < wl" by simp
  then have m0: "0 \<le> ?len mod int wl" and m1: "?len mod int wl < int wl" by simp_all
  have e: "?len - ?len mod int wl = int wl * (?len div int wl)"
    by (rule minus_mod_eq_mult_div)
  have i1: "- int wl < i" and i_le0: "i \<le> 0" and i3: "(?len - i) mod int wl = 0"
  proof -
    show "- int wl < i"
    proof (cases "?len mod int wl > 0")
      case True
      then show ?thesis by (simp add: i_def)
    next
      case False
      with m0 have "?len mod int wl = 0" by linarith
      then show ?thesis using wl0 by (simp add: i_def)
    qed
    show "i \<le> 0"
    proof (cases "?len mod int wl > 0")
      case True
      then have "i = ?len mod int wl - int wl" by (simp add: i_def)
      with m1 show ?thesis by linarith
    next
      case False
      with m0 have "?len mod int wl = 0" by linarith
      then show ?thesis by (simp add: i_def)
    qed
    show "(?len - i) mod int wl = 0"
    proof (cases "?len mod int wl > 0")
      case True
      then have "i = ?len mod int wl - int wl" by (simp add: i_def)
      with e have "?len - i = int wl * (?len div int wl) + int wl" by linarith
      then show ?thesis by simp
    next
      case False
      with m0 have "?len mod int wl = 0" by linarith
      then show ?thesis by (simp add: i_def)
    qed
  qed
  from i_le0 have i2: "i \<le> ?len" by simp
  have b: "\<forall>x\<in>set (replicate n (0::nat)). x < ob" using \<open>0 < ob\<close> by simp
  have v: "digits_value ob (replicate n 0) = digits_value ib (take (nat i) inp)"
    using i_le0 by simp
  have z: "\<forall>k<length (replicate n (0::nat)). int k < int n - 1 \<longrightarrow> replicate n (0::nat) ! k = 0"
    by simp
  have u: "int n - 1 < int (length (replicate n (0::nat)))" by simp
  from assms(1) have ib0: "0 < ib" by simp
  from opt_outer_spec [OF ib0 assms(5) assms(4) wl0 wb wbob assms(3) i1 i2 i3 b v z u]
  obtain rc out' where "opt_outer inp ib ob wl wb i (replicate n 0) (int n - 1) = Some (rc, out')"
    and "rc = 0 \<or> rc = - 1" and "rc = 0 \<longleftrightarrow> digits_value ib inp < ob ^ n"
    and "rc = 0 \<longrightarrow> out' = to_digits ob n (digits_value ib inp)" by auto
  moreover from wl ib64 have "word_loop ib ob 1 (ib mod 2 ^ 64) = Some (wl, wb)"
    by (simp only:)
  then have "convert_base_opt inp ib n ob =
      opt_outer inp ib ob wl wb i (replicate n 0) (int n - 1)"
    by (simp only: convert_base_opt_def option.case prod.case Let_def i_def)
  ultimately show ?thesis by auto
qed

section \<open>\<^verbatim>\<open>convert_base\<close> against the numeral it denotes\<close>

lemma convert_base_spec:
  assumes "convert_pre inp ib ob"
  shows "\<exists>rc out. convert_base un inp ib n ob = Some (rc, out) \<and>
           (rc = 0 \<or> rc = - 1) \<and>
           (rc = 0 \<longleftrightarrow> digits_value ib inp < ob ^ n) \<and>
           (rc = 0 \<longrightarrow> out = to_digits ob n (digits_value ib inp))"
proof -
  from assms have ib: "2 \<le> ib" "ib \<le> 256" and ob: "0 < ob" "ob \<le> 256"
    and ds: "\<forall>d\<in>set inp. d < ib"
    by (simp_all add: convert_pre_def list_all_iff)
  show ?thesis
  proof (cases un)
    case True
    obtain rc out where run: "convert_base_naive inp ib n ob = (rc, out)"
      by (cases "convert_base_naive inp ib n ob")
    from ib have "0 < ib" by simp
    from convert_base_naive_spec [OF run ds this ib(2) ob(2) ob(1)] run True
    show ?thesis by (auto simp: convert_base_def)
  next
    case False
    with convert_base_opt_spec [OF ib ob ds, of n] show ?thesis
      by (auto simp: convert_base_def)
  qed
qed

lemma to_digits_props:
  assumes "0 < b" and "v < b ^ k"
  shows "length (to_digits b k v) = k \<and> list_all (\<lambda>d. d < b) (to_digits b k v) \<and>
         digits_value b (to_digits b k v) = v"
  using assms by (simp add: list_all_iff to_digits_less digits_value_to_digits)

text \<open>
  Claim C2. Under the precondition of \<^verbatim>\<open>convert_base\<close> (both bases between 2 and 256, every
  input digit below \<open>in_base\<close>), if the integer denoted by the input numeral is below
  \<open>out_base ^ out_len\<close>, then \<^verbatim>\<open>convert_base\<close>, naive or optimized, returns 0 and leaves in
  \<^verbatim>\<open>out\<close> the \<open>out_base\<close> numeral of that integer, most significant digit first and
  zero-padded to \<open>out_len\<close> digits: \<open>out_len\<close> digits, each below \<open>out_base\<close>, that
  denote the same integer.
\<close>

theorem convert_base_correct:
  assumes "convert_pre inp in_base out_base"
    and "digits_value in_base inp < out_base ^ out_len"
  shows "\<exists>out. convert_base use_naive_code inp in_base out_len out_base = Some (0, out) \<and>
           out = to_digits out_base out_len (digits_value in_base inp) \<and>
           length out = out_len \<and> list_all (\<lambda>d. d < out_base) out \<and>
           digits_value out_base out = digits_value in_base inp"
proof -
  from assms(1) have "0 < out_base" by (simp add: convert_pre_def)
  from to_digits_props [OF this assms(2)]
    convert_base_spec [OF assms(1), of use_naive_code out_len] assms(2)
  show ?thesis by auto
qed

theorem convert_base_correct_witness:
  "convert_pre [1, 0] 256 36 \<and> digits_value 256 [1, 0] < 36 ^ 2 \<and>
   (\<exists>out. convert_base False [1, 0] 256 2 36 = Some (0, out) \<and>
      out = to_digits 36 2 (digits_value 256 [1, 0]) \<and>
      length out = 2 \<and> list_all (\<lambda>d. d < 36) out \<and>
      digits_value 36 out = digits_value 256 [1, 0])"
proof -
  have p: "convert_pre [1, 0] 256 36" by (simp add: convert_pre_def)
  have v: "digits_value 256 [1, 0] < 36 ^ 2" by (simp add: digits_value_def)
  from p v convert_base_correct [OF p v, of False] show ?thesis by blast
qed

text \<open>
  Claim C5. Under the precondition, \<^verbatim>\<open>convert_base\<close>, naive or optimized, returns, and it returns
  \<open>-1\<close> exactly when the integer denoted by the input numeral is at least
  \<open>out_base ^ out_len\<close>, and \<open>0\<close> exactly when it is smaller.
\<close>

theorem convert_base_overflow_iff:
  assumes "convert_pre inp in_base out_base"
  shows "\<exists>rc out. convert_base use_naive_code inp in_base out_len out_base = Some (rc, out) \<and>
           (rc = - 1 \<longleftrightarrow> out_base ^ out_len \<le> digits_value in_base inp) \<and>
           (rc = 0 \<longleftrightarrow> digits_value in_base inp < out_base ^ out_len)"
  using convert_base_spec [OF assms, of use_naive_code out_len] by fastforce

theorem convert_base_overflow_iff_witness:
  "convert_pre [1, 0, 0] 36 256 \<and>
   (\<exists>rc out. convert_base False [1, 0, 0] 36 1 256 = Some (rc, out) \<and>
      (rc = - 1 \<longleftrightarrow> 256 ^ 1 \<le> digits_value 36 [1, 0, 0]) \<and>
      (rc = 0 \<longleftrightarrow> digits_value 36 [1, 0, 0] < 256 ^ 1))"
proof -
  have p: "convert_pre [1, 0, 0] 36 256" by (simp add: convert_pre_def)
  from p convert_base_overflow_iff [OF p, of False 1] show ?thesis by blast
qed

text \<open>
  Claim C3. Under the precondition, the optimized code returns, with the return code of the
  naive code and, when that is 0, with the same content of \<^verbatim>\<open>out\<close>.
\<close>

theorem optimized_refines_naive:
  assumes "convert_pre inp in_base out_base"
  shows "\<exists>rc out. convert_base_opt inp in_base out_len out_base = Some (rc, out) \<and>
           rc = fst (convert_base_naive inp in_base out_len out_base) \<and>
           (rc = 0 \<longrightarrow> out = snd (convert_base_naive inp in_base out_len out_base))"
proof -
  from convert_base_spec [OF assms, of True out_len]
  obtain rc1 out1 where n: "convert_base_naive inp in_base out_len out_base = (rc1, out1)"
    and n1: "rc1 = 0 \<or> rc1 = - 1" 
    and n2: "rc1 = 0 \<longleftrightarrow> digits_value in_base inp < out_base ^ out_len"
    and n3: "rc1 = 0 \<longrightarrow> out1 = to_digits out_base out_len (digits_value in_base inp)"
    by (auto simp: convert_base_def)
  from convert_base_spec [OF assms, of False out_len]
  obtain rc2 out2 where o: "convert_base_opt inp in_base out_len out_base = Some (rc2, out2)"
    and o1: "rc2 = 0 \<or> rc2 = - 1" 
    and o2: "rc2 = 0 \<longleftrightarrow> digits_value in_base inp < out_base ^ out_len"
    and o3: "rc2 = 0 \<longrightarrow> out2 = to_digits out_base out_len (digits_value in_base inp)"
    by (auto simp: convert_base_def)
  from n1 n2 o1 o2 have "rc2 = rc1" by auto
  with n o n3 o3 show ?thesis by auto
qed

theorem optimized_refines_naive_witness:
  "convert_pre [255, 255, 255] 256 36 \<and>
   (\<exists>rc out. convert_base_opt [255, 255, 255] 256 5 36 = Some (rc, out) \<and>
      rc = fst (convert_base_naive [255, 255, 255] 256 5 36) \<and>
      (rc = 0 \<longrightarrow> out = snd (convert_base_naive [255, 255, 255] 256 5 36)))"
proof -
  have p: "convert_pre [255, 255, 255] 256 36" by (simp add: convert_pre_def)
  from p optimized_refines_naive [OF p, of 5] show ?thesis by blast
qed

section \<open>Characters and digit values\<close>

lemma DECODE_MAP_closed:
  "DECODE_MAP = map (\<lambda>n. if 48 \<le> n \<and> n \<le> 57 then n - 48
                          else if 65 \<le> n \<and> n \<le> 90 then n - 55
                          else if 97 \<le> n \<and> n \<le> 122 then n - 87 else 255) [0..<128]"
  by (simp add: DECODE_MAP_def upt_conv_Cons)

lemma DECODE_MAP_nth:
  assumes "n < 128"
  shows "DECODE_MAP ! n = (if 48 \<le> n \<and> n \<le> 57 then n - 48
                          else if 65 \<le> n \<and> n \<le> 90 then n - 55
                          else if 97 \<le> n \<and> n \<le> 122 then n - 87 else 255)"
  using assms by (simp only: DECODE_MAP_closed nth_map_upt add_0 diff_zero)

lemma index_of_props:
  "x \<in> set xs \<Longrightarrow> index_of x xs < length xs \<and> xs ! index_of x xs = x"
  by (induction xs) auto

lemma codes_mem:
  assumes "map of_char xs = map (\<lambda>d. a + d) [0..<k]"
  shows "c \<in> set xs \<longleftrightarrow> a \<le> of_char c \<and> of_char c < a + k"
proof -
  have "c \<in> set xs \<longleftrightarrow> (of_char c :: nat) \<in> set (map of_char xs)" by auto
  also have "\<dots> \<longleftrightarrow> of_char c \<in> set (map (\<lambda>d. a + d) [0..<k])" by (simp only: assms)
  also have "\<dots> \<longleftrightarrow> a \<le> of_char c \<and> of_char c < a + k"
    by (auto simp: image_iff intro: le_Suc_ex)
  finally show ?thesis .
qed

lemma codes_index:
  assumes "map of_char xs = map (\<lambda>d. a + d) [0..<k]" and "c \<in> set xs"
  shows "index_of c xs = of_char c - a"
proof -
  from index_of_props [OF assms(2)]
  have i: "index_of c xs < length xs" and x: "xs ! index_of c xs = c" by simp_all
  have k: "length xs = k" using arg_cong [OF assms(1), of length] by simp
  from i have "(of_char (xs ! index_of c xs) :: nat) = map of_char xs ! index_of c xs" by simp
  also have "\<dots> = a + index_of c xs" using i k by (simp only: assms(1)) simp
  finally show ?thesis using x by simp
qed


lemma codes_decimal: "map of_char decimal_digits = map (\<lambda>d. 48 + d) [0..<10::nat]"
  by (simp add: decimal_digits_def upt_conv_Cons)

lemma codes_lower: "map of_char lower_letters = map (\<lambda>d. 97 + d) [0..<26::nat]"
  by (simp add: lower_letters_def upt_conv_Cons)

lemma codes_upper: "map of_char upper_letters = map (\<lambda>d. 65 + d) [0..<26::nat]"
  by (simp add: upper_letters_def upt_conv_Cons)

lemma base36_char_code:
  "base36_char c \<longleftrightarrow>
     (48 \<le> (of_char c :: nat) \<and> (of_char c :: nat) \<le> 57) \<or>
     (65 \<le> (of_char c :: nat) \<and> (of_char c :: nat) \<le> 90) \<or>
     (97 \<le> (of_char c :: nat) \<and> (of_char c :: nat) \<le> 122)"
  unfolding base36_char_def codes_mem [OF codes_decimal] codes_mem [OF codes_lower]
    codes_mem [OF codes_upper] by auto

lemma base36_value_code:
  "base36_value c =
     (if 48 \<le> (of_char c :: nat) \<and> (of_char c :: nat) \<le> 57 then of_char c - 48
      else if 97 \<le> (of_char c :: nat) \<and> (of_char c :: nat) \<le> 122 then of_char c - 87
      else if 65 \<le> (of_char c :: nat) \<and> (of_char c :: nat) \<le> 90 then of_char c - 55
      else 10 + index_of c upper_letters)"
proof -
  have d: "c \<in> set decimal_digits \<Longrightarrow> index_of c decimal_digits = of_char c - 48"
    by (rule codes_index [OF codes_decimal])
  have l: "c \<in> set lower_letters \<Longrightarrow> index_of c lower_letters = of_char c - 97"
    by (rule codes_index [OF codes_lower])
  have u: "c \<in> set upper_letters \<Longrightarrow> index_of c upper_letters = of_char c - 65"
    by (rule codes_index [OF codes_upper])
  show ?thesis
    using d l u
    unfolding base36_value_def codes_mem [OF codes_decimal] codes_mem [OF codes_lower]
      codes_mem [OF codes_upper] by auto
qed

lemma valid_char_iff:
  "\<not> ((of_char c :: nat) > 127 \<or> DECODE_MAP ! of_char c = 255) \<longleftrightarrow> base36_char c"
proof (cases "(of_char c :: nat) < 128")
  case True
  from DECODE_MAP_nth [OF True] True show ?thesis
    unfolding base36_char_code by (auto split: if_splits)
next
  case False
  then show ?thesis unfolding base36_char_code by auto
qed

lemma DECODE_MAP_value:
  assumes "base36_char c"
  shows "DECODE_MAP ! of_char c = base36_value c"
proof -
  from assms have "(of_char c :: nat) < 128" unfolding base36_char_code by auto
  from DECODE_MAP_nth [OF this] assms show ?thesis
    unfolding base36_char_code base36_value_code by auto
qed




lemma decode_chars_spec:
  "decode_chars tx i dv =
     (if \<forall>k. i \<le> k \<and> k < 25 \<longrightarrow> base36_char (text_at tx k)
      then Some (dv @ map (\<lambda>k. base36_value (text_at tx k)) [i..<25]) else None)"
proof (induction tx i dv rule: decode_chars.induct)
  case (1 tx i dv)
  show ?case
  proof (cases "i < 25")
    case False
    then show ?thesis by (subst decode_chars.simps) simp
  next
    case True
    let ?c = "text_at tx i"
    show ?thesis
    proof (cases "base36_char ?c")
      case False
      with valid_char_iff [of ?c]
      have "(of_char ?c :: nat) > 127 \<or> DECODE_MAP ! of_char ?c = 255" by simp
      then have "decode_chars tx i dv = None"
        using True by (subst decode_chars.simps) (simp add: Let_def)
      moreover from False True have "\<not> (\<forall>k. i \<le> k \<and> k < 25 \<longrightarrow> base36_char (text_at tx k))"
        by auto
      ultimately show ?thesis by simp
    next
      case ok: True
      with valid_char_iff [of ?c]
      have v: "\<not> ((of_char ?c :: nat) > 127 \<or> DECODE_MAP ! of_char ?c = 255)" by simp
      then have unf: "decode_chars tx i dv =
          decode_chars tx (i + 1) (dv @ [DECODE_MAP ! of_char ?c])"
        using True by (subst decode_chars.simps) (simp add: Let_def)
      have all: "(\<forall>k. i \<le> k \<and> k < 25 \<longrightarrow> base36_char (text_at tx k)) \<longleftrightarrow>
          (\<forall>k. i + 1 \<le> k \<and> k < 25 \<longrightarrow> base36_char (text_at tx k))"
        using ok by (metis Suc_eq_plus1 Suc_leI le_neq_implies_less add_leD1 le_add1 order_trans)
      have upt: "[i..<25] = i # [i + 1..<25]" using True by (simp add: upt_conv_Cons)
      from "1.IH" [OF True refl _ ] v
      have "decode_chars tx (i + 1) (dv @ [DECODE_MAP ! of_char ?c]) =
         (if \<forall>k. i + 1 \<le> k \<and> k < 25 \<longrightarrow> base36_char (text_at tx k)
          then Some ((dv @ [DECODE_MAP ! of_char ?c]) @
                     map (\<lambda>k. base36_value (text_at tx k)) [i + 1..<25]) else None)"
        by simp
      with unf all upt DECODE_MAP_value [OF ok] show ?thesis by simp
    qed
  qed
qed

section \<open>\<^verbatim>\<open>decode\<close> and \<^verbatim>\<open>encode\<close>\<close>

lemma base36_value_less: "base36_char c \<Longrightarrow> base36_value c < 36"
  unfolding base36_char_code base36_value_code by auto

lemma digits_text_iff:
  "digits_text tx \<longleftrightarrow>
     (\<forall>k. 0 \<le> k \<and> k < 25 \<longrightarrow> base36_char (text_at tx k)) \<and> text_at tx 25 = CHR 0x00"
  by (auto simp: digits_text_def list_all_iff)

lemma decode_invalid:
  assumes "\<not> digits_text tx"
  shows "decode un tx out = Some (- 1, out)"
proof (cases "\<forall>k. 0 \<le> k \<and> k < 25 \<longrightarrow> base36_char (text_at tx k)")
  case False
  then have "decode_chars tx 0 [] = None" by (simp only: decode_chars_spec if_False)
  then show ?thesis by (simp add: decode_def)
next
  case True
  with assms have "text_at tx 25 \<noteq> CHR 0x00" by (simp only: digits_text_iff) simp
  then show ?thesis by (simp add: decode_def split: option.splits)
qed

lemma decode_valid:
  assumes "digits_text tx"
  shows "\<exists>rc out'. decode un tx out = Some (rc, out') \<and> (rc = 0 \<or> rc = - 1) \<and>
           (rc = 0 \<longleftrightarrow> text_value tx < 256 ^ 16) \<and>
           (rc = 0 \<longrightarrow> out' = to_digits 256 16 (text_value tx))"
proof -
  let ?dv = "map (\<lambda>k. base36_value (text_at tx k)) [0..<25]"
  from assms have all: "\<forall>k. 0 \<le> k \<and> k < 25 \<longrightarrow> base36_char (text_at tx k)"
    and nul: "text_at tx 25 = CHR 0x00" unfolding digits_text_iff by blast+
  from all have dc: "decode_chars tx 0 [] = Some ?dv"
    by (simp add: decode_chars_spec)
  have "list_all (\<lambda>d. d < 36) ?dv"
    using all by (auto simp: list_all_iff intro: base36_value_less)
  then have pre: "convert_pre ?dv 36 256" by (simp add: convert_pre_def)
  from convert_base_spec [OF pre, of un 16]
  obtain rc out' where c: "convert_base un ?dv 36 16 256 = Some (rc, out')"
    and r: "rc = 0 \<or> rc = - 1"
    and "rc = 0 \<longleftrightarrow> digits_value 36 ?dv < 256 ^ 16"
    and "rc = 0 \<longrightarrow> out' = to_digits 256 16 (digits_value 36 ?dv)" by blast
  then have "decode un tx out = Some (rc, out')" and "rc = 0 \<or> rc = - 1"
    and "rc = 0 \<longleftrightarrow> text_value tx < 256 ^ 16"
    and "rc = 0 \<longrightarrow> out' = to_digits 256 16 (text_value tx)"
    using dc nul by (auto simp: decode_def text_value_def)
  then show ?thesis by blast
qed

text \<open>
  Claim C4. \<^verbatim>\<open>decode\<close> returns, with 0 or \<open>-1\<close>. It returns 0 exactly when the first 25
  characters of the text are of the alphabet \<open>0-9\<close>, \<open>A-Z\<close>, \<open>a-z\<close>, the 26th is the
  NUL terminator and the base-36 value of the 25 digits is at most \<open>2 ^ 128 - 1\<close>; it
  then leaves 16 bytes in \<^verbatim>\<open>out\<close> that denote that value. In every other case it
  returns \<open>-1\<close>.
\<close>

theorem decode_succeeds_iff:
  "\<exists>rc out'. decode use_naive_code text out = Some (rc, out') \<and> (rc = 0 \<or> rc = - 1) \<and>
     (rc = 0 \<longleftrightarrow> digits_text text \<and> text_value text \<le> 2 ^ 128 - 1) \<and>
     (rc = 0 \<longrightarrow> length out' = 16 \<and> list_all (\<lambda>x. x < 256) out' \<and>
                  digits_value 256 out' = text_value text)"
proof (cases "digits_text text")
  case False
  with decode_invalid [OF False, of use_naive_code out] show ?thesis by simp
next
  case True
  have p: "(256::nat) ^ 16 = 2 ^ 128" by simp
  from decode_valid [OF True, of use_naive_code out]
  obtain rc out' where d: "decode use_naive_code text out = Some (rc, out')"
    and r: "rc = 0 \<or> rc = - 1" and i: "rc = 0 \<longleftrightarrow> text_value text < 256 ^ 16"
    and o: "rc = 0 \<longrightarrow> out' = to_digits 256 16 (text_value text)" by blast
  have "rc = 0 \<longrightarrow> length out' = 16 \<and> list_all (\<lambda>x. x < 256) out' \<and>
                  digits_value 256 out' = text_value text"
  proof
    assume "rc = 0"
    with i o have "text_value text < 256 ^ 16" and "out' = to_digits 256 16 (text_value text)"
      by simp_all
    with to_digits_props [of 256 "text_value text" 16]
    show "length out' = 16 \<and> list_all (\<lambda>x. x < 256) out' \<and>
                  digits_value 256 out' = text_value text" by simp
  qed
  have "0 < (2::nat) ^ 128" by simp
  then have "text_value text < 2 ^ 128 \<longleftrightarrow> text_value text \<le> 2 ^ 128 - 1" by linarith
  moreover from i have "rc = 0 \<longleftrightarrow> text_value text < 2 ^ 128" by (simp only: p)
  ultimately have "rc = 0 \<longleftrightarrow> digits_text text \<and> text_value text \<le> 2 ^ 128 - 1"
    using True by blast
  with \<open>rc = 0 \<longrightarrow> length out' = 16 \<and> list_all (\<lambda>x. x < 256) out' \<and>
                  digits_value 256 out' = text_value text\<close> d r show ?thesis by blast
qed

theorem decode_succeeds_iff_witness:
  "digits_text ''f5lxx1zz5pnorynqglhzmsp33'' \<and>
   text_value ''f5lxx1zz5pnorynqglhzmsp33'' \<le> 2 ^ 128 - 1 \<and>
   (\<exists>out'. decode False ''f5lxx1zz5pnorynqglhzmsp33'' (replicate 16 0) = Some (0, out'))"
proof -
  have d: "digits_text ''f5lxx1zz5pnorynqglhzmsp33''"
    by (simp add: digits_text_def text_at_def base36_char_def decimal_digits_def
        lower_letters_def upper_letters_def upt_conv_Cons)
  have v: "text_value ''f5lxx1zz5pnorynqglhzmsp33'' \<le> 2 ^ 128 - 1"
    by (simp add: text_value_def text_at_def base36_value_def decimal_digits_def
        lower_letters_def upper_letters_def upt_conv_Cons digits_value_def)
  from d v decode_succeeds_iff [of False "''f5lxx1zz5pnorynqglhzmsp33''" "replicate 16 0"]
  show ?thesis by auto
qed

lemma codes_DIGITS:
  "map of_char DIGITS = map (\<lambda>d. if d < 10 then 48 + d else 87 + d) [0..<36::nat]"
  by (simp add: DIGITS_def upt_conv_Cons)

lemma codes_DIGITS_upper:
  "map of_char DIGITS_base36_128_c = map (\<lambda>d. if d < 10 then 48 + d else 55 + d) [0..<36::nat]"
  by (simp add: DIGITS_base36_128_c_def upt_conv_Cons)

lemma table_nth:
  assumes "map of_char xs = map f [0..<k]" and "i < k"
  shows "(of_char (xs ! i) :: nat) = f i"
proof -
  have k: "length xs = k" using arg_cong [OF assms(1), of length] by simp
  with assms(2) have "(of_char (xs ! i) :: nat) = map of_char xs ! i" by simp
  also have "\<dots> = f i" using assms(2) by (simp only: assms(1)) simp
  finally show ?thesis .
qed

lemma canonical_char_code:
  "canonical_char c \<longleftrightarrow>
     (48 \<le> (of_char c :: nat) \<and> (of_char c :: nat) \<le> 57) \<or>
     (97 \<le> (of_char c :: nat) \<and> (of_char c :: nat) \<le> 122)"
  unfolding canonical_char_def codes_mem [OF codes_decimal] codes_mem [OF codes_lower] by auto

lemma uppercase_char_code:
  "uppercase_char c \<longleftrightarrow>
     (48 \<le> (of_char c :: nat) \<and> (of_char c :: nat) \<le> 57) \<or>
     (65 \<le> (of_char c :: nat) \<and> (of_char c :: nat) \<le> 90)"
  unfolding uppercase_char_def codes_mem [OF codes_decimal] codes_mem [OF codes_upper] by auto

lemma DIGITS_nth:
  assumes "d < 36"
  shows "canonical_char (DIGITS ! d) \<and> base36_char (DIGITS ! d) \<and> base36_value (DIGITS ! d) = d"
  using table_nth [OF codes_DIGITS assms] assms
  unfolding canonical_char_code base36_char_code base36_value_code by auto

lemma DIGITS_upper_nth:
  assumes "d < 36"
  shows "uppercase_char (DIGITS_base36_128_c ! d) \<and> base36_char (DIGITS_base36_128_c ! d) \<and>
         base36_value (DIGITS_base36_128_c ! d) = d"
  using table_nth [OF codes_DIGITS_upper assms] assms
  unfolding uppercase_char_code base36_char_code base36_value_code by auto

lemma bytes16_value:
  assumes "bytes16 b"
  shows "convert_pre b 256 36" and "digits_value 256 b < 36 ^ 25"
    and "digits_value 256 b < 256 ^ 16" and "to_digits 256 16 (digits_value 256 b) = b"
    and "take 16 b = b"
proof -
  from assms have len: "length b = 16" and all: "\<forall>x\<in>set b. x < 256"
    by (simp_all add: bytes16_def list_all_iff)
  from assms show "convert_pre b 256 36" by (simp add: convert_pre_def bytes16_def)
  from digits_value_less [OF all] len show v: "digits_value 256 b < 256 ^ 16" by simp
  have "(256::nat) ^ 16 < 36 ^ 25" by simp
  with v show "digits_value 256 b < 36 ^ 25" by (rule less_trans)
  from to_digits_digits_value [OF all] len show "to_digits 256 16 (digits_value 256 b) = b"
    by simp
  from len show "take 16 b = b" by simp
qed

lemma encode_with_spec:
  assumes "bytes16 b"
  shows "convert_base un b 256 25 36 = Some (0, to_digits 36 25 (digits_value 256 b))"
    and "encode_with D un b =
      Some (Inr (map (\<lambda>i. D ! (to_digits 36 25 (digits_value 256 b) ! i)) [0..<25] @ [CHR 0x00]))"
proof -
  from convert_base_spec [OF bytes16_value(1) [OF assms], of un 25] bytes16_value(2) [OF assms]
  show c: "convert_base un b 256 25 36 = Some (0, to_digits 36 25 (digits_value 256 b))"
    by auto
  then show "encode_with D un b =
      Some (Inr (map (\<lambda>i. D ! (to_digits 36 25 (digits_value 256 b) ! i)) [0..<25] @ [CHR 0x00]))"
    by (simp add: encode_with_def bytes16_value(5) [OF assms])
qed

lemma text_at_encoded:
  assumes "length cs = 25"
  shows "text_at (cs @ [CHR 0x00]) 25 = CHR 0x00"
    and "k < 25 \<Longrightarrow> text_at (cs @ [CHR 0x00]) k = cs ! k"
  using assms by (simp_all add: text_at_def nth_append)

lemma decode_encoded:
  assumes "bytes16 b"
    and D: "\<forall>d<36. base36_char (D ! d) \<and> base36_value (D ! d) = d"
  shows "decode un (map (\<lambda>i. D ! (to_digits 36 25 (digits_value 256 b) ! i)) [0..<25]
                     @ [CHR 0x00]) out = Some (0, b)"
proof -
  let ?V = "digits_value 256 b"
  let ?dv = "to_digits 36 25 ?V"
  let ?cs = "map (\<lambda>i. D ! (?dv ! i)) [0..<25]"
  let ?tx = "?cs @ [CHR 0x00]"
  have len: "length ?cs = 25" by simp
  have dlt: "?dv ! k < 36" if "k < 25" for k
    using that to_digits_less [of 36 "?dv ! k" 25 ?V] by simp
  have at: "text_at ?tx k = D ! (?dv ! k)" if "k < 25" for k
    using text_at_encoded(2) [OF len that] that by simp
  have nul: "text_at ?tx 25 = CHR 0x00" by (rule text_at_encoded(1) [OF len])
  have valid: "digits_text ?tx"
    unfolding digits_text_iff using at dlt D nul by auto
  have "map (\<lambda>i. base36_value (text_at ?tx i)) [0..<25] = map (\<lambda>i. ?dv ! i) [0..<25]"
    using at dlt D by (intro map_cong) auto
  also have "\<dots> = ?dv" using map_nth [of ?dv] by simp
  finally have "text_value ?tx = digits_value 36 ?dv" by (simp only: text_value_def)
  also have "\<dots> = ?V mod 36 ^ 25" by (rule digits_value_to_digits)
  also have "\<dots> = ?V" using bytes16_value(2) [OF assms(1)] by simp
  finally have tv: "text_value ?tx = ?V" .
  from decode_valid [OF valid, of un out] tv bytes16_value(3,4) [OF assms(1)]
  show ?thesis by auto
qed

text \<open>
  Claim C1. For every 16-byte array \<open>b\<close>, \<^verbatim>\<open>encode\<close> returns a text and \<^verbatim>\<open>decode\<close> of
  that text returns 0 and leaves exactly \<open>b\<close> in \<^verbatim>\<open>out\<close>; this holds for the later revision
  with either loop, and for \<^verbatim>\<open>base36_128.c\<close>.
\<close>

theorem decode_encode_roundtrip:
  assumes "bytes16 b"
  shows "(\<exists>text. encode use_naive_code b = Some (Inr text) \<and>
                  decode use_naive_code text out = Some (0, b)) \<and>
         (\<exists>text. encode_base36_128_c b = Some (Inr text) \<and>
                  decode True text out = Some (0, b))"
proof -
  have 1: "\<forall>d<36. base36_char (DIGITS ! d) \<and> base36_value (DIGITS ! d) = d"
    using DIGITS_nth by blast
  have 2: "\<forall>d<36. base36_char (DIGITS_base36_128_c ! d) \<and>
      base36_value (DIGITS_base36_128_c ! d) = d"
    using DIGITS_upper_nth by blast
  from encode_with_spec(2) [OF assms, of DIGITS use_naive_code]
    decode_encoded [OF assms 1, of use_naive_code out]
    encode_with_spec(2) [OF assms, of DIGITS_base36_128_c True]
    decode_encoded [OF assms 2, of True out]
  show ?thesis by (simp add: encode_def encode_base36_128_c_def)
qed

theorem decode_encode_roundtrip_witness:
  "bytes16 [1, 127, 238, 127, 239, 65, 126, 43, 52, 50, 172, 46, 197, 83, 104, 124] \<and>
   (\<exists>text. encode False
      [1, 127, 238, 127, 239, 65, 126, 43, 52, 50, 172, 46, 197, 83, 104, 124] = Some (Inr text) \<and>
      decode False text (replicate 16 0) =
        Some (0, [1, 127, 238, 127, 239, 65, 126, 43, 52, 50, 172, 46, 197, 83, 104, 124]))"
proof -
  have b: "bytes16 [1, 127, 238, 127, 239, 65, 126, 43, 52, 50, 172, 46, 197, 83, 104, 124]"
    by (simp add: bytes16_def)
  from b decode_encode_roundtrip [OF b, of False "replicate 16 0"] show ?thesis by blast
qed

text \<open>
  Claim C8. For every 16-byte array, the call of \<^verbatim>\<open>convert_base\<close> in \<^verbatim>\<open>encode\<close>, with 16
  digits of base 256 and 25 digits of base 36, returns 0, so \<^verbatim>\<open>encode\<close> never fails its
  assertion.
\<close>

theorem encode_cannot_fail:
  assumes "bytes16 b"
  shows "(\<exists>digit_values. convert_base use_naive_code (take 16 b) 256 25 36 = Some (0, digit_values)) \<and>
         (\<exists>text. encode use_naive_code b = Some (Inr text)) \<and>
         (\<exists>text. encode_base36_128_c b = Some (Inr text))"
  using encode_with_spec [OF assms] bytes16_value(5) [OF assms]
  by (simp add: encode_def encode_base36_128_c_def)

theorem encode_cannot_fail_witness:
  "bytes16 (replicate 16 255) \<and>
   (\<exists>digit_values. convert_base False (take 16 (replicate 16 255)) 256 25 36 =
      Some (0, digit_values)) \<and>
   (\<exists>text. encode False (replicate 16 255) = Some (Inr text)) \<and>
   (\<exists>text. encode_base36_128_c (replicate 16 255) = Some (Inr text))"
proof -
  have b: "bytes16 (replicate 16 255)" by (simp add: bytes16_def list_all_iff)
  from b encode_cannot_fail [OF b, of False] show ?thesis by blast
qed

lemma to_digits_numeral:
  "to_digits b (numeral k) n = to_digits b (pred_numeral k) (n div b) @ [n mod b]"
  by (simp add: numeral_eq_Suc)


lemma encoded_chars:
  assumes "\<forall>d<36. P (D ! d)"
  shows "length (map (\<lambda>i. D ! (to_digits 36 25 v ! i)) [0..<25] @ [CHR 0x00]) = 26"
    and "(map (\<lambda>i. D ! (to_digits 36 25 v ! i)) [0..<25] @ [CHR 0x00]) ! 25 = CHR 0x00"
    and "list_all P (take 25 (map (\<lambda>i. D ! (to_digits 36 25 v ! i)) [0..<25] @ [CHR 0x00]))"
proof -
  let ?cs = "map (\<lambda>i. D ! (to_digits 36 25 v ! i)) [0..<25]"
  have len: "length ?cs = 25" by simp
  show "length (?cs @ [CHR 0x00]) = 26" by simp
  show "(?cs @ [CHR 0x00]) ! 25 = CHR 0x00" using len by (simp add: nth_append)
  have dlt: "to_digits 36 25 v ! k < 36" if "k < 25" for k
    using that to_digits_less [of 36 "to_digits 36 25 v ! k" 25 v] by simp
  have "take 25 (?cs @ [CHR 0x00]) = ?cs" using len by simp
  moreover have "list_all P ?cs" using dlt assms by (auto simp: list_all_iff)
  ultimately show "list_all P (take 25 (?cs @ [CHR 0x00]))" by (simp only:)
qed

text \<open>
  Claim C6, as amended. For every 16-byte array, \<^verbatim>\<open>encode\<close> of the later revision writes 25
  characters of the lowercase alphabet \<open>0123456789abcdefghijklmnopqrstuvwxyz\<close> and the
  terminating NUL; \<^verbatim>\<open>encode\<close> of \<^verbatim>\<open>base36_128.c\<close> writes 25 characters of the uppercase
  alphabet \<open>0123456789ABCDEFGHIJKLMNOPQRSTUVWXYZ\<close> and the terminating NUL.
\<close>

theorem encode_alphabet:
  assumes "bytes16 b"
  shows "(\<exists>text. encode use_naive_code b = Some (Inr text) \<and> length text = 26 \<and>
            text ! 25 = CHR 0x00 \<and> list_all canonical_char (take 25 text)) \<and>
         (\<exists>text. encode_base36_128_c b = Some (Inr text) \<and> length text = 26 \<and>
            text ! 25 = CHR 0x00 \<and> list_all uppercase_char (take 25 text))"
proof -
  have 1: "\<forall>d<36. canonical_char (DIGITS ! d)" using DIGITS_nth by blast
  have 2: "\<forall>d<36. uppercase_char (DIGITS_base36_128_c ! d)" using DIGITS_upper_nth by blast
  from encode_with_spec(2) [OF assms, of DIGITS use_naive_code]
    encoded_chars [OF 1, of "digits_value 256 b"]
    encode_with_spec(2) [OF assms, of DIGITS_base36_128_c True]
    encoded_chars [OF 2, of "digits_value 256 b"]
  show ?thesis unfolding encode_def encode_base36_128_c_def by blast
qed

theorem encode_alphabet_witness:
  "bytes16 (replicate 16 255) \<and>
   (\<exists>text. encode False (replicate 16 255) = Some (Inr text) \<and> length text = 26 \<and>
      text ! 25 = CHR 0x00 \<and> list_all canonical_char (take 25 text)) \<and>
   (\<exists>text. encode_base36_128_c (replicate 16 255) = Some (Inr text) \<and> length text = 26 \<and>
      text ! 25 = CHR 0x00 \<and> list_all uppercase_char (take 25 text))"
proof -
  have b: "bytes16 (replicate 16 255)" by (simp add: bytes16_def list_all_iff)
  from b encode_alphabet [OF b, of False] show ?thesis by blast
qed

text \<open>
  The claim as stated fails on \<^verbatim>\<open>base36_128.c\<close>: its \<^verbatim>\<open>encode\<close> writes the sixteen bytes
  \<open>0xff\<close> as \<open>F5LXX1ZZ5PNORYNQGLHZMSP33\<close>, the text of its own test vector.
\<close>

theorem encode_lowercase_counterexample:
  "bytes16 [255, 255, 255, 255, 255, 255, 255, 255, 255, 255, 255, 255, 255, 255, 255, 255] \<and>
   encode_base36_128_c
     [255, 255, 255, 255, 255, 255, 255, 255, 255, 255, 255, 255, 255, 255, 255, 255] =
     Some (Inr (''F5LXX1ZZ5PNORYNQGLHZMSP33'' @ [CHR 0x00])) \<and>
   \<not> list_all canonical_char (take 25 (''F5LXX1ZZ5PNORYNQGLHZMSP33'' @ [CHR 0x00]))"
proof -
  have b: "bytes16 [255, 255, 255, 255, 255, 255, 255, 255, 255, 255, 255, 255, 255, 255, 255, 255]"
    by (simp add: bytes16_def)
  moreover have "encode_base36_128_c
     [255, 255, 255, 255, 255, 255, 255, 255, 255, 255, 255, 255, 255, 255, 255, 255] =
     Some (Inr (''F5LXX1ZZ5PNORYNQGLHZMSP33'' @ [CHR 0x00]))"
  proof -
    have v: "digits_value 256
        [255, 255, 255, 255, 255, 255, 255, 255, 255, 255, 255, 255, 255, 255, 255, 255] =
        340282366920938463463374607431768211455"
      by (simp add: digits_value_def)
    have d: "to_digits 36 25 340282366920938463463374607431768211455 =
        [15, 5, 21, 33, 33, 1, 35, 35, 5, 25, 23, 24, 27, 34, 23, 26, 16, 21, 17, 35, 22, 28,
         25, 3, 3]"
      by (simp add: to_digits_numeral)
    have m: "map (\<lambda>i. DIGITS_base36_128_c !
        ([15, 5, 21, 33, 33, 1, 35, 35, 5, 25, 23, 24, 27, 34, 23, 26, 16, 21, 17, 35, 22, 28,
          25, 3, 3] ! i)) [0..<25] = ''F5LXX1ZZ5PNORYNQGLHZMSP33''"
      by (simp add: DIGITS_base36_128_c_def upt_conv_Cons)
    show ?thesis
      unfolding encode_base36_128_c_def encode_with_spec(2) [OF b] v d m ..
  qed
  moreover have "\<not> canonical_char (CHR ''F'')"
    by (simp add: canonical_char_def decimal_digits_def lower_letters_def)
  then have "\<not> list_all canonical_char (take 25 (''F5LXX1ZZ5PNORYNQGLHZMSP33'' @ [CHR 0x00]))"
    by simp
  ultimately show ?thesis by blast
qed





text \<open>
  Claim C10. When one of the first 25 characters is not of the alphabet or the 26th is not
  the NUL terminator, \<^verbatim>\<open>decode\<close> returns \<open>-1\<close> and leaves \<^verbatim>\<open>out\<close> as it was.
\<close>

theorem decode_failure_frame:
  assumes "\<not> digits_text text"
  shows "decode use_naive_code text out = Some (- 1, out)"
  using assms by (rule decode_invalid)

theorem decode_failure_frame_witness:
  "\<not> digits_text ''f5lxx1zz5pn+rynqglhzmsp33'' \<and>
   decode False ''f5lxx1zz5pn+rynqglhzmsp33'' [1, 2, 3, 4, 5, 6, 7, 8, 9, 10, 11, 12, 13, 14, 15, 16] =
     Some (- 1, [1, 2, 3, 4, 5, 6, 7, 8, 9, 10, 11, 12, 13, 14, 15, 16])"
proof -
  have "\<not> base36_char (CHR ''+'')"
    by (simp add: base36_char_def decimal_digits_def lower_letters_def upper_letters_def)
  then have "\<not> base36_char (text_at ''f5lxx1zz5pn+rynqglhzmsp33'' 11)"
    by (simp add: text_at_def)
  moreover have "(11::nat) \<in> set [0..<25]" by simp
  ultimately have "\<not> list_all (\<lambda>i. base36_char (text_at ''f5lxx1zz5pn+rynqglhzmsp33'' i)) [0..<25]"
    unfolding list_all_iff by blast
  then have n: "\<not> digits_text ''f5lxx1zz5pn+rynqglhzmsp33''"
    by (simp only: digits_text_def simp_thms)
  from n decode_failure_frame [OF n, of False] show ?thesis by blast
qed

section \<open>The accumulator stays within its type\<close>

lemma naive_inner_carries_bound:
  assumes "k \<le> length out" and "\<forall>x\<in>set out. x < ob" and "c < ib"
    and "ib \<le> 256" and "ob \<le> 256" and "2 \<le> ob"
  shows "\<forall>v\<in>set (naive_inner_carries ib ob k out c). v \<le> ib * ob - 1"
  using assms(1-3)
proof (induction k arbitrary: out c)
  case 0
  then show ?case by simp
next
  case (Suc j)
  define t where "t = c + out ! j * ib"
  define out1 where "out1 = out[j := t mod ob]"
  from Suc.prems have j: "j < length out" by simp
  with Suc.prems have oj: "out ! j < ob" by simp
  then have ob0: "0 < ob" by simp
  from oj have "out ! j + 1 \<le> ob" by simp
  then have "(out ! j + 1) * ib \<le> ob * ib" by (rule mult_le_mono1)
  with \<open>c < ib\<close> have t_lt: "t < ob * ib" by (simp add: t_def algebra_simps)
  from \<open>ob \<le> 256\<close> \<open>ib \<le> 256\<close> have "ob * ib \<le> 256 * 256" by (rule mult_le_mono)
  with t_lt have t16: "t mod 65536 = t" by simp
  from ob0 \<open>ob \<le> 256\<close> have "t mod ob < 256"
    by (meson mod_less_divisor less_le_trans)
  then have m256: "t mod ob mod 256 = t mod ob" by simp
  from t_lt ob0 have c1: "t div ob < ib" by (simp add: less_mult_imp_div_less mult.commute)
  have unf: "naive_inner_carries ib ob (Suc j) out c =
      t # (t div ob) # naive_inner_carries ib ob j out1 (t div ob)"
    by (simp add: t_def [symmetric] t16 m256 out1_def [symmetric] Let_def)
  have b1: "\<forall>x\<in>set out1. x < ob"
    using Suc.prems(2) ob0 unfolding out1_def by (auto dest!: set_update_subset_insert [THEN subsetD])
  have jl: "j \<le> length out1" using j by (simp add: out1_def)
  from Suc.IH [OF jl b1 c1]
  have rest: "\<forall>v\<in>set (naive_inner_carries ib ob j out1 (t div ob)). v \<le> ib * ob - 1" .
  from t_lt have t_le: "t \<le> ib * ob - 1" by (simp add: mult.commute)
  have "t div ob \<le> t" by simp
  from this t_le have c_le: "t div ob \<le> ib * ob - 1" by (rule order_trans)
  from unf rest t_le c_le show ?case by simp
qed

lemma carry_start_bound:
  assumes "d < ib" and "2 \<le> ob"
  shows "d \<le> ib * ob - (1::nat)"
proof -
  from assms(2) have "ib * 2 \<le> ib * ob" by (rule mult_le_mono2)
  with assms(1) show ?thesis by linarith
qed

lemma naive_outer_carries_bound:
  assumes "\<forall>x\<in>set out. x < ob" and "\<forall>d\<in>set ds. d < ib"
    and "ib \<le> 256" and "ob \<le> 256" and "2 \<le> ob"
  shows "\<forall>v\<in>set (naive_outer_carries ib ob ds out). v \<le> ib * ob - 1"
  using assms(1,2)
proof (induction ds arbitrary: out)
  case Nil
  show ?case by simp
next
  case (Cons d ds)
  obtain out1 c where in1: "naive_inner ib ob (length out) out d = (out1, c)"
    by (cases "naive_inner ib ob (length out) out d")
  from Cons.prems have d: "d < ib" and ds: "\<forall>d\<in>set ds. d < ib" by simp_all
  have "length out1 = length out \<and> drop (length out) out1 = drop (length out) out \<and>
      (\<forall>x\<in>set out1. x < ob) \<and>
      digits_value ob (take (length out) out1) + c * ob ^ length out =
        digits_value ob (take (length out) out) * ib + d \<and> c < ib"
    by (rule naive_inner_spec [OF in1 _ Cons.prems(1) d \<open>ib \<le> 256\<close> \<open>ob \<le> 256\<close>]) simp
  then have B: "\<forall>x\<in>set out1. x < ob" by simp
  have inner: "\<forall>v\<in>set (naive_inner_carries ib ob (length out) out d). v \<le> ib * ob - 1"
    by (rule naive_inner_carries_bound [OF _ Cons.prems(1) d assms(3-5)]) simp
  have first: "d \<le> ib * ob - 1" using d \<open>2 \<le> ob\<close> by (rule carry_start_bound)
  show ?case
  proof (cases "c = 0")
    case True
    with in1 have "naive_outer_carries ib ob (d # ds) out =
        d # naive_inner_carries ib ob (length out) out d @ naive_outer_carries ib ob ds out1"
      by simp
    with Cons.IH [OF B ds] inner first show ?thesis by auto
  next
    case False
    with in1 have "naive_outer_carries ib ob (d # ds) out =
        d # naive_inner_carries ib ob (length out) out d"
      by simp
    with inner first show ?thesis by auto
  qed
qed

lemma opt_inner_carries_bound:
  assumes "k \<le> length out" and "\<forall>x\<in>set out. x < ob" and "c < wb"
    and "wb * ob \<le> UINT64_MAX" and "ob \<le> 256"
  shows "\<forall>v\<in>set (opt_inner_carries wb ob k out c ou). v \<le> wb * ob - 1"
  using assms(1-3)
proof (induction k arbitrary: out c)
  case 0
  then show ?case by simp
next
  case (Suc j)
  define t where "t = c + out ! j * wb"
  define out1 where "out1 = out[j := t mod ob]"
  from Suc.prems have j: "j < length out" by simp
  with Suc.prems have oj: "out ! j < ob" by simp
  then have ob0: "0 < ob" by simp
  from oj have "out ! j + 1 \<le> ob" by simp
  then have "(out ! j + 1) * wb \<le> ob * wb" by (rule mult_le_mono1)
  with \<open>c < wb\<close> have t_lt: "t < ob * wb" by (simp add: t_def algebra_simps)
  have U: "UINT64_MAX < 2 ^ 64" by (simp add: UINT64_MAX_def)
  from t_lt assms(4) U have t_small: "t < 2 ^ 64" by (simp add: mult.commute)
  have "out ! j * wb \<le> t" by (simp add: t_def)
  with t_small have p64: "(out ! j * wb) mod 2 ^ 64 = out ! j * wb" by simp
  from t_small have t64: "t mod 2 ^ 64 = t" by simp
  from ob0 \<open>ob \<le> 256\<close> have "t mod ob < 256"
    by (meson mod_less_divisor less_le_trans)
  then have m256: "t mod ob mod 256 = t mod ob" by simp
  from t_lt ob0 have c1: "t div ob < wb" by (simp add: less_mult_imp_div_less mult.commute)
  have unf: "opt_inner_carries wb ob (Suc j) out c ou =
      t # (t div ob) # (if t div ob = 0 \<and> int j \<le> ou then []
                        else opt_inner_carries wb ob j out1 (t div ob) ou)"
    by (simp only: opt_inner_carries.simps Let_def p64 t_def [symmetric] t64 m256
        out1_def [symmetric])
  have b1: "\<forall>x\<in>set out1. x < ob"
    using Suc.prems(2) ob0 unfolding out1_def by (auto dest!: set_update_subset_insert [THEN subsetD])
  have jl: "j \<le> length out1" using j by (simp add: out1_def)
  from Suc.IH [OF jl b1 c1]
  have rest: "\<forall>v\<in>set (opt_inner_carries wb ob j out1 (t div ob) ou). v \<le> wb * ob - 1" .
  from t_lt have t_le: "t \<le> wb * ob - 1" by (simp add: mult.commute)
  have "t div ob \<le> t" by simp
  from this t_le have c_le: "t div ob \<le> wb * ob - 1" by (rule order_trans)
  from unf rest t_le c_le show ?case by simp
qed

lemma read_carries_snoc:
  "read_carries inp ib (js @ [j]) c =
     read_carries inp ib js c @
     [fold (\<lambda>j carry. (carry * ib + inp ! j) mod 2 ^ 64) js c * ib + inp ! j]"
  by (induction js arbitrary: c) simp_all

lemma read_carries_bound:
  assumes "lo \<le> hi" and "hi \<le> length inp" and "\<forall>d\<in>set inp. d < ib"
    and "ib ^ (hi - lo) \<le> 2 ^ 64" and "0 < ib"
  shows "\<forall>v\<in>set (read_carries inp ib [lo..<hi] 0). v < ib ^ (hi - lo)"
  using assms(1,2,4)
proof (induction hi)
  case 0
  then show ?case by simp
next
  case (Suc hi)
  show ?case
  proof (cases "lo = Suc hi")
    case True
    then show ?thesis by simp
  next
    case False
    with Suc.prems have lo: "lo \<le> hi" and hi: "hi < length inp" by simp_all
    have mono: "ib ^ (hi - lo) \<le> ib ^ (Suc hi - lo)"
      using \<open>0 < ib\<close> by (intro power_increasing) simp_all
    with Suc.prems have small: "ib ^ (hi - lo) \<le> 2 ^ 64" by simp
    from Suc.IH [OF lo _ small] hi
    have IH: "\<forall>v\<in>set (read_carries inp ib [lo..<hi] 0). v < ib ^ (hi - lo)" by simp
    have hil: "hi \<le> length inp" using hi by simp
    have f: "fold (\<lambda>j carry. (carry * ib + inp ! j) mod 2 ^ 64) [lo..<hi] 0 =
        digits_value ib (take (hi - lo) (drop lo inp))"
      by (rule read_fold [OF lo hil assms(3) small \<open>0 < ib\<close>])
    have S: "Suc hi - lo = Suc (hi - lo)" using lo by simp
    have sl: "take (Suc hi - lo) (drop lo inp) = take (hi - lo) (drop lo inp) @ [inp ! hi]"
      using lo hi by (simp add: S take_Suc_conv_app_nth)
    have "\<forall>d\<in>set (take (Suc hi - lo) (drop lo inp)). d < ib"
      using assms(3) by (meson in_set_takeD in_set_dropD)
    from digits_value_less [OF this] lo hi
    have "digits_value ib (take (Suc hi - lo) (drop lo inp)) < ib ^ (Suc hi - lo)"
      by simp
    then have last: "digits_value ib (take (hi - lo) (drop lo inp)) * ib + inp ! hi
        < ib ^ (Suc hi - lo)" by (simp add: sl)
    have "read_carries inp ib [lo..<Suc hi] 0 = read_carries inp ib [lo..<hi] 0 @
        [digits_value ib (take (hi - lo) (drop lo inp)) * ib + inp ! hi]"
      using lo by (simp only: upt_Suc_append read_carries_snoc f)
    moreover from IH mono
    have "\<forall>v\<in>set (read_carries inp ib [lo..<hi] 0). v < ib ^ (Suc hi - lo)"
      by (meson less_le_trans)
    ultimately show ?thesis using last by simp
  qed
qed

lemma read_word_carries_bound:
  assumes "- int wl < i" and "i + int wl \<le> int (length inp)"
    and "\<forall>d\<in>set inp. d < ib" and "0 < ib" and "ib ^ wl < 2 ^ 64"
  shows "\<forall>v\<in>set (read_word_carries inp ib i wl). v < ib ^ wl"
proof -
  let ?lo = "nat i" and ?hi = "nat (i + int wl)"
  have lo: "nat (if i < 0 then 0 else i) = ?lo" by simp
  have lohi: "?lo \<le> ?hi" by simp
  have hi: "?hi \<le> length inp" using assms(2) by simp
  have len: "?hi - ?lo \<le> wl" by linarith
  then have pw: "ib ^ (?hi - ?lo) \<le> ib ^ wl"
    using \<open>0 < ib\<close> by (intro power_increasing) simp_all
  with assms(5) have "ib ^ (?hi - ?lo) \<le> 2 ^ 64" by simp
  from read_carries_bound [OF lohi hi assms(3) this \<open>0 < ib\<close>] pw
  have "\<forall>v\<in>set (read_carries inp ib [?lo..<?hi] 0). v < ib ^ wl"
    by (meson less_le_trans)
  moreover have "0 < ib ^ wl" using \<open>0 < ib\<close> by simp
  ultimately show ?thesis by (simp only: read_word_carries_def lo) simp
qed

lemma opt_outer_carries_bound:
  assumes "0 < ib" and "\<forall>d\<in>set inp. d < ib" and "ob \<le> 256"
    and "0 < wl" and "wb = ib ^ wl" and "wb * ob \<le> UINT64_MAX" and "0 < ob"
    and "- int wl < i" and "i \<le> int (length inp)"
    and "(int (length inp) - i) mod int wl = 0"
    and "\<forall>x\<in>set out. x < ob"
    and "\<forall>k<length out. int k < ou \<longrightarrow> out ! k = 0"
    and "ou < int (length out)"
    and "\<forall>v\<in>set seen. v \<le> wb * ob - 1"
  shows "\<exists>vs. opt_outer_carries inp ib ob wl wb i out ou seen = Some vs \<and>
           (\<forall>v\<in>set vs. v \<le> wb * ob - 1)"
  using assms(8-14)
proof (induction "nat (int (length inp) - i)" arbitrary: i out ou seen rule: less_induct)
  case less
  let ?n = "int (length inp)"
  have U: "UINT64_MAX < 2 ^ 64" by (simp add: UINT64_MAX_def)
  have wbob: "wb \<le> wb * ob" using \<open>0 < ob\<close> by (cases ob) simp_all
  with assms(6) U have wb64: "wb < 2 ^ 64" by linarith
  show ?case
  proof (cases "i < ?n")
    case False
    then have "opt_outer_carries inp ib ob wl wb i out ou seen = Some seen"
      by (subst opt_outer_carries.simps) simp
    with less.prems(7) show ?thesis by simp
  next
    case True
    from less.prems(3) have "int wl dvd ?n - i" by (simp add: mod_eq_0_iff_dvd)
    moreover from True have "0 < ?n - i" by simp
    ultimately have "int wl \<le> ?n - i" by (rule zdvd_imp_le)
    then have hi_le: "i + int wl \<le> ?n" by simp
    from assms(5) wb64 have p64: "ib ^ wl < 2 ^ 64" by simp
    from read_word_spec [OF less.prems(1) hi_le assms(2) \<open>0 < ib\<close> p64]
    have w_lt: "read_word inp ib i wl < wb" by (simp add: assms(5))
    have rb: "\<forall>v\<in>set (read_word_carries inp ib i wl). v \<le> wb * ob - 1"
    proof
      fix v assume "v \<in> set (read_word_carries inp ib i wl)"
      with read_word_carries_bound [OF less.prems(1) hi_le assms(2) \<open>0 < ib\<close> p64]
      have "v < wb" by (simp add: assms(5))
      with wbob show "v \<le> wb * ob - 1" by linarith
    qed
    have ib': "\<forall>v\<in>set (opt_inner_carries wb ob (length out) out (read_word inp ib i wl) ou).
        v \<le> wb * ob - 1"
      by (rule opt_inner_carries_bound [OF _ less.prems(4) w_lt assms(6) assms(3)]) simp
    let ?seen1 = "seen @ read_word_carries inp ib i wl @
        opt_inner_carries wb ob (length out) out (read_word inp ib i wl) ou"
    from less.prems(7) rb ib' have s1: "\<forall>v\<in>set ?seen1. v \<le> wb * ob - 1" by auto
    obtain out1 c ou1 where
      run: "opt_inner wb ob (length out) out (read_word inp ib i wl) ou = (out1, c, ou1)"
      by (cases "opt_inner wb ob (length out) out (read_word inp ib i wl) ou")
    have cz: "read_word inp ib i wl = 0 \<longrightarrow> ou < int (length out)"
      using less.prems(6) by simp
    have spec: "length out1 = length out \<and> drop (length out) out1 = drop (length out) out \<and>
        (\<forall>x\<in>set out1. x < ob) \<and>
        digits_value ob (take (length out) out1) + c * ob ^ length out =
          digits_value ob (take (length out) out) * wb + read_word inp ib i wl \<and>
        c < wb \<and>
        (c = 0 \<longrightarrow> (\<forall>i<length out. int i < ou1 \<longrightarrow> out1 ! i = 0) \<and> ou1 < int (length out))"
      by (rule opt_inner_spec [OF run _ less.prems(4) w_lt assms(6) assms(3) less.prems(5) cz])
        simp
    then have L: "length out1 = length out" and B: "\<forall>x\<in>set out1. x < ob"
      and Z: "c = 0 \<longrightarrow> (\<forall>k<length out. int k < ou1 \<longrightarrow> out1 ! k = 0) \<and> ou1 < int (length out)"
      by simp_all
    show ?thesis
    proof (cases "c = 0")
      case False
      then have "opt_outer_carries inp ib ob wl wb i out ou seen = Some ?seen1"
        using True run by (subst opt_outer_carries.simps) (simp add: Let_def)
      with s1 show ?thesis by simp
    next
      case c0: True
      then have unf: "opt_outer_carries inp ib ob wl wb i out ou seen =
          opt_outer_carries inp ib ob wl wb (i + int wl) out1 ou1 ?seen1"
        using True run by (subst opt_outer_carries.simps) (simp add: Let_def)
      have dec: "nat (?n - (i + int wl)) < nat (?n - i)" using True \<open>0 < wl\<close> by simp
      have i1: "- int wl < i + int wl" using less.prems(1) by simp
      have i3: "(?n - (i + int wl)) mod int wl = 0"
        using less.prems(3) by (metis diff_diff_eq mod_0 mod_self minus_mod_self2 mod_diff_right_eq)
      from c0 Z L have z1: "\<forall>k<length out1. int k < ou1 \<longrightarrow> out1 ! k = 0"
        and u1: "ou1 < int (length out1)" by simp_all
      from less.hyps [OF dec i1 hi_le i3 B z1 u1 s1] unf show ?thesis by simp
    qed
  qed
qed

lemma opt_carries_bound:
  assumes "2 \<le> ib" and "ib \<le> 256" and "2 \<le> ob" and "ob \<le> 256"
    and "\<forall>d\<in>set inp. d < ib"
  shows "\<exists>wl wb vs. word_loop ib ob 1 (ib mod 2 ^ 64) = Some (wl, wb) \<and>
           opt_carries inp ib n ob = Some vs \<and>
           (\<forall>v\<in>set vs. v \<le> wb * ob - 1 \<and> v \<le> UINT64_MAX)"
proof -
  from \<open>2 \<le> ob\<close> have ob0: "0 < ob" by simp
  from \<open>ib \<le> 256\<close> \<open>ob \<le> 256\<close> have "ib * ob \<le> 256 * 256" by (rule mult_le_mono)
  then have le: "ib ^ 1 * ob \<le> UINT64_MAX" by (simp add: UINT64_MAX_def)
  from word_loop_spec [OF assms(1,2) ob0 assms(4) refl le]
  obtain wl wb where wl: "word_loop ib ob 1 (ib ^ 1) = Some (wl, wb)" and "1 \<le> wl"
    and wb: "wb = ib ^ wl" and wbob: "wb * ob \<le> UINT64_MAX" by blast
  from \<open>ib \<le> 256\<close> have ib64: "ib mod 2 ^ 64 = ib ^ 1" by simp
  let ?len = "int (length inp)"
  define i where "i = (if ?len mod int wl > 0 then ?len mod int wl - int wl else ?len mod int wl)"
  from \<open>1 \<le> wl\<close> have wl0: "0 < wl" by simp
  then have m0: "0 \<le> ?len mod int wl" and m1: "?len mod int wl < int wl" by simp_all
  have e: "?len - ?len mod int wl = int wl * (?len div int wl)"
    by (rule minus_mod_eq_mult_div)
  have i1: "- int wl < i" and i_le0: "i \<le> 0" and i3: "(?len - i) mod int wl = 0"
  proof -
    show "- int wl < i"
    proof (cases "?len mod int wl > 0")
      case True
      then show ?thesis by (simp add: i_def)
    next
      case False
      with m0 have "?len mod int wl = 0" by linarith
      then show ?thesis using wl0 by (simp add: i_def)
    qed
    show "i \<le> 0"
    proof (cases "?len mod int wl > 0")
      case True
      then have "i = ?len mod int wl - int wl" by (simp add: i_def)
      with m1 show ?thesis by linarith
    next
      case False
      with m0 have "?len mod int wl = 0" by linarith
      then show ?thesis by (simp add: i_def)
    qed
    show "(?len - i) mod int wl = 0"
    proof (cases "?len mod int wl > 0")
      case True
      then have "i = ?len mod int wl - int wl" by (simp add: i_def)
      with e have "?len - i = int wl * (?len div int wl) + int wl" by linarith
      then show ?thesis by simp
    next
      case False
      with m0 have "?len mod int wl = 0" by linarith
      then show ?thesis by (simp add: i_def)
    qed
  qed
  from i_le0 have i2: "i \<le> ?len" by simp
  have b: "\<forall>x\<in>set (replicate n (0::nat)). x < ob" using ob0 by simp
  have z: "\<forall>k<length (replicate n (0::nat)). int k < int n - 1 \<longrightarrow> replicate n (0::nat) ! k = 0"
    by simp
  have u: "int n - 1 < int (length (replicate n (0::nat)))" by simp
  have s: "\<forall>v\<in>set ([]::nat list). v \<le> wb * ob - 1" by simp
  from assms(1) have ib0: "0 < ib" by simp
  from opt_outer_carries_bound [OF ib0 assms(5) assms(4) wl0 wb wbob ob0 i1 i2 i3 b z u s]
  obtain vs where run: "opt_outer_carries inp ib ob wl wb i (replicate n 0) (int n - 1) [] = Some vs"
    and bound: "\<forall>v\<in>set vs. v \<le> wb * ob - 1" by blast
  from wl ib64 have wl': "word_loop ib ob 1 (ib mod 2 ^ 64) = Some (wl, wb)"
    by (simp only:)
  then have "opt_carries inp ib n ob =
      opt_outer_carries inp ib ob wl wb i (replicate n 0) (int n - 1) []"
    by (simp only: opt_carries_def option.case prod.case Let_def i_def)
  with run have oc: "opt_carries inp ib n ob = Some vs" by simp
  from bound wbob have "\<forall>v\<in>set vs. v \<le> wb * ob - 1 \<and> v \<le> UINT64_MAX" by auto
  with wl' oc show ?thesis by blast
qed

text \<open>
  Claim C9. Under the precondition, no value assigned to \<^verbatim>\<open>carry\<close> exceeds its type, so no
  assignment wraps around: in the naive loop every value is at most
  \<open>in_base * out_base - 1\<close> and at most 65535, the least maximum of \<^verbatim>\<open>uint_fast16_t\<close>; in
  the optimized loop the selection of \<^verbatim>\<open>word_len\<close> returns, and every value is at most
  \<open>word_base * out_base - 1\<close> and at most \<^verbatim>\<open>UINT64_MAX\<close>.
\<close>

theorem carry_within_type:
  assumes "convert_pre inp in_base out_base"
  shows "list_all (\<lambda>v. v \<le> in_base * out_base - 1 \<and> v \<le> 65535)
           (naive_carries inp in_base out_len out_base) \<and>
         (\<exists>word_len word_base vs.
            word_loop in_base out_base 1 (in_base mod 2 ^ 64) = Some (word_len, word_base) \<and>
            opt_carries inp in_base out_len out_base = Some vs \<and>
            list_all (\<lambda>v. v \<le> word_base * out_base - 1 \<and> v \<le> UINT64_MAX) vs)"
proof -
  from assms have ib: "2 \<le> in_base" "in_base \<le> 256" and ob: "2 \<le> out_base" "out_base \<le> 256"
    and ds: "\<forall>d\<in>set inp. d < in_base"
    by (simp_all add: convert_pre_def list_all_iff)
  from ob have ob0: "0 < out_base" by simp
  have z: "\<forall>x\<in>set (replicate out_len (0::nat)). x < out_base" using ob0 by simp
  from naive_outer_carries_bound [OF z ds ib(2) ob(2) ob(1)]
  have n: "\<forall>v\<in>set (naive_carries inp in_base out_len out_base). v \<le> in_base * out_base - 1"
    by (simp only: naive_carries_def)
  from ib(2) ob(2) have "in_base * out_base \<le> 256 * 256" by (rule mult_le_mono)
  then have "in_base * out_base - 1 \<le> 65535" by simp
  with n have "list_all (\<lambda>v. v \<le> in_base * out_base - 1 \<and> v \<le> 65535)
           (naive_carries inp in_base out_len out_base)"
    unfolding list_all_iff by (meson order_trans)
  moreover from opt_carries_bound [OF ib ob ds, of out_len]
  have "\<exists>word_len word_base vs.
            word_loop in_base out_base 1 (in_base mod 2 ^ 64) = Some (word_len, word_base) \<and>
            opt_carries inp in_base out_len out_base = Some vs \<and>
            list_all (\<lambda>v. v \<le> word_base * out_base - 1 \<and> v \<le> UINT64_MAX) vs"
    unfolding list_all_iff .
  ultimately show ?thesis by blast
qed

theorem carry_within_type_witness:
  "convert_pre [255, 255] 256 256 \<and>
   list_all (\<lambda>v. v \<le> 256 * 256 - 1 \<and> v \<le> 65535) (naive_carries [255, 255] 256 1 256) \<and>
   (\<exists>word_len word_base vs.
      word_loop 256 256 1 (256 mod 2 ^ 64) = Some (word_len, word_base) \<and>
      opt_carries [255, 255] 256 1 256 = Some vs \<and>
      list_all (\<lambda>v. v \<le> word_base * 256 - 1 \<and> v \<le> UINT64_MAX) vs)"
proof -
  have p: "convert_pre [255, 255] 256 256" by (simp add: convert_pre_def)
  from p carry_within_type [OF p, of 1] show ?thesis by blast
qed

end
